theory Spec2Isabelle
  imports Main "HOL-Library.Multiset"
begin

section \<open>Data model of robotplanner.py\<close>

text \<open>
  \<^verbatim>\<open>Vector2 = namedtuple("Vector2", ["x", "y"])\<close>: a pair of Python integers, compared
  structurally. The first component is \<open>x\<close>, the second is \<open>y\<close>.
\<close>

type_synonym Vector2 = "int \<times> int"

text \<open>
  The ways a call can end without returning a value to its caller: the Python exceptions
  that can be raised. Nothing in the file catches IndexError, AttributeError or SystemExit;
  KeyError is caught in one place only, in \<^verbatim>\<open>a_star\<close>. \<open>SystemExit msg code\<close> is raised by
  \<^verbatim>\<open>sys.exit(code)\<close>; it carries the message printed just before.
\<close>

datatype error = IndexError | KeyError | AttributeError | SystemExit string int

text \<open>\<^verbatim>\<open>err(msg)\<close>: print the message, then \<^verbatim>\<open>sys.exit(1)\<close>. The call never returns.\<close>

definition err :: "string \<Rightarrow> error + 'a" where
  "err msg = Inl (SystemExit msg 1)"

subsection \<open>PriorityQueue\<close>

text \<open>
  \<^verbatim>\<open>self.data\<close> is a list of \<^verbatim>\<open>(priority, data)\<close> tuples; \<^verbatim>\<open>put\<close> appends, \<^verbatim>\<open>pop\<close>
  sorts the list in place by priority (Python's sort is stable, as is \<^const>\<open>sort_key\<close>) and
  removes its first entry. On an empty queue \<^verbatim>\<open>pop\<close> returns \<^verbatim>\<open>None\<close>.
\<close>

type_synonym 'a PriorityQueue = "(int \<times> 'a) list"

definition PriorityQueue_empty :: "'a PriorityQueue \<Rightarrow> bool" where
  "PriorityQueue_empty q = (if q \<noteq> [] then False else True)"

definition PriorityQueue_put :: "'a PriorityQueue \<Rightarrow> 'a \<Rightarrow> int \<Rightarrow> 'a PriorityQueue" where
  "PriorityQueue_put q d priority = q @ [(priority, d)]"

definition PriorityQueue_pop :: "'a PriorityQueue \<Rightarrow> 'a option \<times> 'a PriorityQueue" where
  "PriorityQueue_pop q =
     (if PriorityQueue_empty q then (None, q)
      else (let s = sort_key fst q in (Some (snd (hd s)), tl s)))"

subsection \<open>World\<close>

text \<open>
  Python's \<^verbatim>\<open>str.split()\<close> with no argument: the maximal runs of non-whitespace
  characters. For characters below 256 the whitespace ones are 9 to 13, 28 to 32, 133
  and 160.
\<close>

definition isspace :: "char \<Rightarrow> bool" where
  "isspace c = ((of_char c :: nat) \<in> {9, 10, 11, 12, 13, 28, 29, 30, 31, 32, 133, 160})"

fun split_from :: "string \<Rightarrow> string \<Rightarrow> string list" where
  "split_from tok [] = (if tok = [] then [] else [tok])"
| "split_from tok (c # cs) =
     (if isspace c then (if tok = [] then split_from [] cs else tok # split_from [] cs)
      else split_from (tok @ [c]) cs)"

definition str_split :: "string \<Rightarrow> string list" where
  "str_split s = split_from [] s"

record World =
  data :: "string list list"
  width :: int
  height :: int

text \<open>\<^verbatim>\<open>World.__init__\<close>: \<^verbatim>\<open>self.data[0]\<close> raises IndexError when there is no row.\<close>

definition World_init :: "string list \<Rightarrow> error + World" where
  "World_init environment_data =
     (let d = map str_split environment_data in
      case d of
        [] \<Rightarrow> Inl IndexError
      | row0 # _ \<Rightarrow> Inr \<lparr>data = d, width = int (length row0), height = int (length d)\<rparr>)"

definition point_inside :: "World \<Rightarrow> Vector2 \<Rightarrow> bool" where
  "point_inside w the_point =
     (if (0 \<le> fst the_point \<and> fst the_point < width w)
          \<and> (0 \<le> snd the_point \<and> snd the_point < height w)
      then True else False)"

text \<open>
  Indexing a Python list: an index from \<open>0\<close> up to the length selects from the front, one
  from minus the length up to \<open>-1\<close> selects from the back, any other raises IndexError.
\<close>

definition list_index :: "'a list \<Rightarrow> int \<Rightarrow> error + 'a" where
  "list_index xs i =
     (if 0 \<le> i \<and> i < int (length xs) then Inr (xs ! nat i)
      else if - int (length xs) \<le> i \<and> i < 0 then Inr (xs ! nat (i + int (length xs)))
      else Inl IndexError)"

text \<open>\<^verbatim>\<open>World.__getitem__\<close> at a point: \<^verbatim>\<open>self.data[y][x]\<close>.\<close>

definition getitem :: "World \<Rightarrow> Vector2 \<Rightarrow> error + string" where
  "getitem w key =
     (case key of (x, y) \<Rightarrow>
        (case list_index (data w) y of
           Inl e \<Rightarrow> Inl e
         | Inr row \<Rightarrow> list_index row x))"

definition World_is_empty :: "World \<Rightarrow> Vector2 \<Rightarrow> error + bool" where
  "World_is_empty w the_point =
     (case getitem w the_point of
        Inl e \<Rightarrow> Inl e
      | Inr v \<Rightarrow> Inr (if v = ''0'' then True else False))"

definition potential :: "Vector2 \<Rightarrow> Vector2 list" where
  "potential the_point =
     [(fst the_point - 1, snd the_point), (fst the_point + 1, snd the_point),
      (fst the_point, snd the_point + 1), (fst the_point, snd the_point - 1)]"

fun neighbours_loop :: "World \<Rightarrow> Vector2 list \<Rightarrow> Vector2 list \<Rightarrow> error + Vector2 list" where
  "neighbours_loop w [] the_neighbours = Inr the_neighbours"
| "neighbours_loop w (neighbour # rest) the_neighbours =
     (if point_inside w neighbour then
        (case World_is_empty w neighbour of
           Inl e \<Rightarrow> Inl e
         | Inr b \<Rightarrow>
             if b then neighbours_loop w rest (the_neighbours @ [neighbour])
             else neighbours_loop w rest the_neighbours)
      else neighbours_loop w rest the_neighbours)"

definition neighbours :: "World \<Rightarrow> Vector2 \<Rightarrow> error + Vector2 list" where
  "neighbours w the_point = neighbours_loop w (potential the_point) []"

subsection \<open>The search\<close>

definition cartesian_distance :: "Vector2 \<Rightarrow> Vector2 \<Rightarrow> int" where
  "cartesian_distance pos1 pos2 = \<bar>fst pos1 - fst pos2\<bar> + \<bar>snd pos1 - snd pos2\<bar>"

text \<open>
  The three mutable objects of \<^verbatim>\<open>a_star\<close>. The start's parent is Python's \<^verbatim>\<open>None\<close>, so the
  values of \<open>parent\<close> are optional cells.
\<close>

record search =
  looking_at :: "Vector2 PriorityQueue"
  parent :: "Vector2 \<rightharpoonup> Vector2 option"
  cost :: "Vector2 \<rightharpoonup> int"

text \<open>
  The body of the inner \<^verbatim>\<open>for\<close> loop for one \<^verbatim>\<open>new_point\<close>. \<^verbatim>\<open>cost[current]\<close> raises
  KeyError when \<^verbatim>\<open>current\<close> has no cost.
\<close>

definition visit :: "Vector2 \<Rightarrow> Vector2 \<Rightarrow> search \<Rightarrow> Vector2 \<Rightarrow> error + search" where
  "visit the_end current st new_point =
     (case cost st current of
        None \<Rightarrow> Inl KeyError
      | Some c \<Rightarrow>
          (let new_cost = c + 1 in
           if cost st new_point = None \<or> new_cost < the (cost st new_point) then
             (let priority = new_cost + cartesian_distance the_end new_point in
              Inr \<lparr>looking_at = PriorityQueue_put (looking_at st) new_point priority,
                   parent = (parent st)(new_point \<mapsto> Some current),
                   cost = (cost st)(new_point \<mapsto> new_cost)\<rparr>)
           else Inr st))"

fun visit_all :: "Vector2 \<Rightarrow> Vector2 \<Rightarrow> Vector2 list \<Rightarrow> search \<Rightarrow> error + search" where
  "visit_all the_end current [] st = Inr st"
| "visit_all the_end current (new_point # rest) st =
     (case visit the_end current st new_point of
        Inl e \<Rightarrow> Inl e
      | Inr st' \<Rightarrow> visit_all the_end current rest st')"

text \<open>
  One round of the \<^verbatim>\<open>while\<close> loop, entered with a non-empty queue: either the loop is left
  by \<^verbatim>\<open>break\<close>, or it goes on with the new state. Both carry the value of \<^verbatim>\<open>current\<close>.
  Were \<^verbatim>\<open>pop\<close> to return \<^verbatim>\<open>None\<close>, \<^verbatim>\<open>neighbours\<close> would read \<^verbatim>\<open>None.x\<close>.
\<close>

datatype round = Break Vector2 search | Continue Vector2 search

definition a_star_round :: "World \<Rightarrow> Vector2 \<Rightarrow> search \<Rightarrow> error + round" where
  "a_star_round the_world the_end st =
     (case PriorityQueue_pop (looking_at st) of
        (None, q) \<Rightarrow> Inl AttributeError
      | (Some current, q) \<Rightarrow>
          if current = the_end then Inr (Break current (st\<lparr>looking_at := q\<rparr>))
          else
            (case neighbours the_world current of
               Inl e \<Rightarrow> Inl e
             | Inr ns \<Rightarrow>
                 (case visit_all the_end current ns (st\<lparr>looking_at := q\<rparr>) of
                    Inl e \<Rightarrow> Inl e
                  | Inr st' \<Rightarrow> Inr (Continue current st'))))"

text \<open>
  The \<^verbatim>\<open>while not looking_at.empty()\<close> loop. Nothing bounds the number of rounds in the
  source, so the loop is a partial function: the value \<open>None\<close> stands for running forever.
  The second argument is the variable \<^verbatim>\<open>current\<close>, unbound before the first round.
\<close>

partial_function (option) a_star_loop ::
  "World \<Rightarrow> Vector2 \<Rightarrow> Vector2 option \<Rightarrow> search \<Rightarrow> (error + Vector2 option \<times> search) option" where
  "a_star_loop the_world the_end current st =
     (if PriorityQueue_empty (looking_at st) then Some (Inr (current, st))
      else
        (case a_star_round the_world the_end st of
           Inl e \<Rightarrow> Some (Inl e)
         | Inr (Break c st') \<Rightarrow> Some (Inr (Some c, st'))
         | Inr (Continue c st') \<Rightarrow> a_star_loop the_world the_end (Some c) st'))"

text \<open>
  Following the parents backwards from \<^verbatim>\<open>the_end\<close>. A missing key raises KeyError; the
  \<^verbatim>\<open>except\<close> clause catches it and calls \<^verbatim>\<open>err("No path could be found.")\<close>, which raises
  SystemExit inside \<^verbatim>\<open>a_star\<close>. If the parent read is \<^verbatim>\<open>None\<close>, then it is
  appended, it differs from the start, and the next lookup \<^verbatim>\<open>parent[None]\<close> raises KeyError as
  well (\<^verbatim>\<open>None\<close> is never a key). A cycle among the parents would keep the loop running.
\<close>

partial_function (option) follow ::
  "(Vector2 \<rightharpoonup> Vector2 option) \<Rightarrow> Vector2 \<Rightarrow> Vector2 \<Rightarrow> Vector2 list \<Rightarrow> (error + Vector2 list) option" where
  "follow par the_start the_point the_path =
     (if the_point \<noteq> the_start then
        (case par the_point of
           None \<Rightarrow> Some (err ''No path could be found.'')
         | Some None \<Rightarrow> Some (err ''No path could be found.'')
         | Some (Some p) \<Rightarrow> follow par the_start p (the_path @ [p]))
      else Some (Inr the_path))"

declare a_star_loop.simps [code]
declare follow.simps [code]

definition initial :: "Vector2 \<Rightarrow> search" where
  "initial the_start =
     \<lparr>looking_at = PriorityQueue_put [] the_start 0,
      parent = [the_start \<mapsto> None],
      cost = [the_start \<mapsto> 0]\<rparr>"

definition a_star :: "Vector2 \<Rightarrow> Vector2 \<Rightarrow> World \<Rightarrow> (error + Vector2 list) option" where
  "a_star the_start the_end the_world =
     (case a_star_loop the_world the_end None (initial the_start) of
        None \<Rightarrow> None
      | Some (Inl e) \<Rightarrow> Some (Inl e)
      | Some (Inr (current, st)) \<Rightarrow>
          (case follow (parent st) the_start the_end [the_end] of
             None \<Rightarrow> None
           | Some (Inl e) \<Rightarrow> Some (Inl e)
           | Some (Inr the_path) \<Rightarrow> Some (Inr (rev the_path))))"

subsection \<open>The directional output of the main program\<close>

text \<open>
  The \<^verbatim>\<open>for point in path\<close> loop of the main program with its variables \<^verbatim>\<open>prev_point\<close> and
  \<^verbatim>\<open>displayed\<close>; the last argument collects what \<^verbatim>\<open>print(to_print, end="")\<close> writes. The
  final \<^verbatim>\<open>print()\<close> ends the line.
\<close>

fun directions_loop :: "Vector2 list \<Rightarrow> Vector2 option \<Rightarrow> bool \<Rightarrow> string \<Rightarrow> string" where
  "directions_loop [] prev_point displayed out = out"
| "directions_loop (point # rest) prev_point displayed out =
     (case prev_point of
        None \<Rightarrow> directions_loop rest (Some point) displayed out
      | Some pp \<Rightarrow>
          (let to_print = (if displayed then '' '' else '''');
               letter = (if fst point > fst pp then ''R''
                         else if fst point < fst pp then ''L''
                         else if snd point > snd pp then ''D''
                         else ''U'')
           in directions_loop rest (Some point) True (out @ to_print @ letter)))"

definition directions :: "Vector2 list \<Rightarrow> string" where
  "directions path = directions_loop path None False [] @ [CHR 0x0A]"

section \<open>Notions used to state the properties\<close>

subsection \<open>Grids and routes\<close>

text \<open>
  The grid invariant: \<open>height\<close> is the number of rows and every row has \<open>width\<close> entries.
\<close>

definition rectangular :: "World \<Rightarrow> bool" where
  "rectangular w =
     (height w = int (length (data w)) \<and> (\<forall>row \<in> set (data w). int (length row) = width w))"

text \<open>A cell of the grid is free when its entry is the text \<open>0\<close>; any other entry is a wall.\<close>

definition free :: "World \<Rightarrow> Vector2 \<Rightarrow> bool" where
  "free w p = (data w ! nat (snd p) ! nat (fst p) = ''0'')"

definition passable :: "World \<Rightarrow> Vector2 \<Rightarrow> bool" where
  "passable w p = (point_inside w p \<and> free w p)"

text \<open>
  One move of the search as the code decides it: \<open>q\<close> is one of the four candidates around
  \<open>p\<close>, lies inside, and \<^const>\<open>World_is_empty\<close> answers \<open>True\<close> for it.
\<close>

definition step :: "World \<Rightarrow> Vector2 \<Rightarrow> Vector2 \<Rightarrow> bool" where
  "step w p q = (q \<in> set (potential p) \<and> point_inside w q \<and> World_is_empty w q = Inr True)"

text \<open>
  A route is a non-empty list of cells in which every cell after the first is at distance
  one from its predecessor, inside the grid and free. The first cell is where the robot
  stands; the main program checks it before the search. A route whose first cell is
  passable consists of passable cells only.
\<close>

fun route :: "World \<Rightarrow> Vector2 list \<Rightarrow> bool" where
  "route w [] = False"
| "route w [p] = True"
| "route w (p # q # ps) = (cartesian_distance p q = 1 \<and> passable w q \<and> route w (q # ps))"

definition connects :: "World \<Rightarrow> Vector2 \<Rightarrow> Vector2 \<Rightarrow> Vector2 list \<Rightarrow> bool" where
  "connects w s e ps = (route w ps \<and> hd ps = s \<and> last ps = e)"

text \<open>
  \<open>k\<close> is the length, counted in moves, of a shortest route from \<open>s\<close> to \<open>e\<close>: some route
  has \<open>k\<close> moves (\<open>k + 1\<close> cells) and none has fewer.
\<close>

definition shortest_length :: "World \<Rightarrow> Vector2 \<Rightarrow> Vector2 \<Rightarrow> nat \<Rightarrow> bool" where
  "shortest_length w s e k =
     ((\<exists>ps. connects w s e ps \<and> length ps = Suc k)
      \<and> (\<forall>ps. connects w s e ps \<longrightarrow> Suc k \<le> length ps))"

definition connected :: "World \<Rightarrow> Vector2 \<Rightarrow> Vector2 \<Rightarrow> bool" where
  "connected w s e = (\<exists>ps. connects w s e ps)"

text \<open>
  A call reports to its caller when it returns a value. A call that raises an exception, or
  that runs forever, returns nothing.
\<close>

definition returned :: "(error + 'a) option \<Rightarrow> bool" where
  "returned r = (case r of Some (Inr v) \<Rightarrow> True | _ \<Rightarrow> False)"

text \<open>The same with the moves the code takes: a walk follows \<^const>\<open>step\<close>.\<close>

fun walk :: "World \<Rightarrow> Vector2 list \<Rightarrow> bool" where
  "walk w [] = False"
| "walk w [p] = True"
| "walk w (p # q # ps) = (step w p q \<and> walk w (q # ps))"

subsection \<open>The queue seen from outside\<close>

text \<open>
  A history of calls on one queue, and the values its \<^verbatim>\<open>pop\<close> calls return. \<open>run_ops\<close> runs
  the history on the queue of the source.
\<close>

datatype 'a queue_op = Put 'a int | Pop

fun run_ops :: "'a queue_op list \<Rightarrow> 'a PriorityQueue \<Rightarrow> 'a option list" where
  "run_ops [] q = []"
| "run_ops (Put d priority # ops) q = run_ops ops (PriorityQueue_put q d priority)"
| "run_ops (Pop # ops) q = (case PriorityQueue_pop q of (r, q') \<Rightarrow> r # run_ops ops q')"

text \<open>
  The reference queue keeps its entries in the order of insertion and never reorders them.
  Its \<open>pop\<close> takes the first entry, hence the one inserted earliest, among those whose
  priority is the least priority present.
\<close>

definition earliest_min :: "'a PriorityQueue \<Rightarrow> int \<times> 'a" where
  "earliest_min q = hd (filter (\<lambda>e. fst e = Min (fst ` set q)) q)"

definition pop_earliest_min :: "'a PriorityQueue \<Rightarrow> 'a option \<times> 'a PriorityQueue" where
  "pop_earliest_min q =
     (if q = [] then (None, q)
      else (Some (snd (earliest_min q)), remove1 (earliest_min q) q))"

fun run_ops_spec :: "'a queue_op list \<Rightarrow> 'a PriorityQueue \<Rightarrow> 'a option list" where
  "run_ops_spec [] q = []"
| "run_ops_spec (Put d priority # ops) q = run_ops_spec ops (q @ [(priority, d)])"
| "run_ops_spec (Pop # ops) q =
     (case pop_earliest_min q of (r, q') \<Rightarrow> r # run_ops_spec ops q')"

text \<open>
  Two queues agree on ties when, for every priority, they hold the same entries of that
  priority in the same order.
\<close>

definition same_ties :: "'a PriorityQueue \<Rightarrow> 'a PriorityQueue \<Rightarrow> bool" where
  "same_ties c a = (\<forall>k. filter (\<lambda>e. fst e = k) c = filter (\<lambda>e. fst e = k) a)"

subsection \<open>Replaying the directions\<close>

text \<open>
  The reading of the letters: \<open>R\<close> increases \<open>x\<close>, \<open>L\<close> decreases \<open>x\<close>, \<open>D\<close> increases \<open>y\<close>,
  \<open>U\<close> decreases \<open>y\<close>. \<open>replay\<close> applies the letters of a printed line one by one, starting
  from a cell, and lists the cells passed; blanks and the line end separate the letters.
\<close>

fun move :: "char \<Rightarrow> Vector2 \<Rightarrow> Vector2" where
  "move c (x, y) =
     (if c = CHR ''R'' then (x + 1, y)
      else if c = CHR ''L'' then (x - 1, y)
      else if c = CHR ''D'' then (x, y + 1)
      else if c = CHR ''U'' then (x, y - 1)
      else (x, y))"

fun replay :: "Vector2 \<Rightarrow> string \<Rightarrow> Vector2 list" where
  "replay p [] = [p]"
| "replay p (c # cs) =
     (if c = CHR '' '' \<or> c = CHR 0x0A then replay p cs else p # replay (move c p) cs)"

subsection \<open>The state of the search\<close>

text \<open>
  Between two states of one run: every cell that has a cost keeps a cost, and the cost is
  the same or strictly lower.
\<close>

definition cost_mono :: "search \<Rightarrow> search \<Rightarrow> bool" where
  "cost_mono st st' =
     (\<forall>p c. cost st p = Some c \<longrightarrow>
        (cost st' p = Some c \<or> (\<exists>c'. cost st' p = Some c' \<and> c' < c)))"

definition nonneg :: "search \<Rightarrow> bool" where
  "nonneg st = (\<forall>p c. cost st p = Some c \<longrightarrow> 0 \<le> c)"

text \<open>
  The parents form a tree rooted at the start: the start has cost \<open>0\<close> and parent \<^verbatim>\<open>None\<close>;
  every queued cell has a cost; a cell has a parent exactly when it has a cost; and every
  other cell with a cost was reached by a move from its parent, whose cost is lower by at
  least one.
\<close>

definition tree_inv :: "World \<Rightarrow> Vector2 \<Rightarrow> search \<Rightarrow> bool" where
  "tree_inv w s st =
     (cost st s = Some 0 \<and> parent st s = Some None \<and> nonneg st
      \<and> (\<forall>x \<in> set (looking_at st). cost st (snd x) \<noteq> None)
      \<and> (\<forall>p. cost st p = None \<longrightarrow> parent st p = None)
      \<and> (\<forall>p c. cost st p = Some c \<longrightarrow> p \<noteq> s \<longrightarrow>
            (\<exists>q cq. parent st p = Some (Some q) \<and> cost st q = Some cq \<and> cq + 1 \<le> c
               \<and> step w q p)))"

text \<open>
  Every cell with a cost, except those in \<open>X\<close>, is either waiting in the queue with a
  priority of at most its cost plus its distance to the end, or all cells one move away
  have a cost of at most one more.
\<close>

definition frontier_inv :: "World \<Rightarrow> Vector2 \<Rightarrow> Vector2 set \<Rightarrow> search \<Rightarrow> bool" where
  "frontier_inv w e X st =
     (\<forall>p c. p \<notin> X \<longrightarrow> cost st p = Some c \<longrightarrow>
        (\<exists>f. (f, p) \<in> set (looking_at st) \<and> f \<le> c + cartesian_distance e p)
        \<or> (\<forall>n. step w p n \<longrightarrow> (\<exists>c'. cost st n = Some c' \<and> c' \<le> c + 1)))"

text \<open>The priority of a queued entry of the end is at least the end's cost.\<close>

definition goal_entries :: "Vector2 \<Rightarrow> search \<Rightarrow> bool" where
  "goal_entries e st =
     (\<forall>f. (f, e) \<in> set (looking_at st) \<longrightarrow> (\<exists>c. cost st e = Some c \<and> c \<le> f))"

definition search_inv :: "World \<Rightarrow> Vector2 \<Rightarrow> Vector2 \<Rightarrow> search \<Rightarrow> bool" where
  "search_inv w s e st = (tree_inv w s st \<and> frontier_inv w e {} st \<and> goal_entries e st)"

text \<open>
  The cells met when following the parents from \<open>p\<close> back to the start \<open>s\<close>, with the
  costs falling along the way.
\<close>

fun back_chain ::
  "World \<Rightarrow> (Vector2 \<rightharpoonup> int) \<Rightarrow> Vector2 \<Rightarrow> Vector2 \<Rightarrow> Vector2 list \<Rightarrow> bool" where
  "back_chain w cst s p [] = (p = s)"
| "back_chain w cst s p (q # qs) =
     (p \<noteq> s \<and> step w q p \<and> (\<exists>c cq. cst p = Some c \<and> cst q = Some cq \<and> cq + 1 \<le> c)
      \<and> back_chain w cst s q qs)"

text \<open>
  What decreases from round to round, in lexicographic order: the number of cells of the
  grid without a cost, the sum of the costs of the cells of the grid, the length of the
  queue.
\<close>

definition unset :: "World \<Rightarrow> search \<Rightarrow> nat" where
  "unset w st = card {p. point_inside w p \<and> cost st p = None}"

definition cost_sum :: "World \<Rightarrow> search \<Rightarrow> nat" where
  "cost_sum w st = (\<Sum>p | point_inside w p. case cost st p of None \<Rightarrow> 0 | Some c \<Rightarrow> nat c)"

definition lower_rank :: "World \<Rightarrow> search \<Rightarrow> search \<Rightarrow> bool" where
  "lower_rank w a b = (unset w a < unset w b \<or> (unset w a = unset w b \<and> cost_sum w a < cost_sum w b))"

definition rank :: "World \<Rightarrow> search \<Rightarrow> nat \<times> nat \<times> nat" where
  "rank w st = (unset w st, cost_sum w st, length (looking_at st))"

text \<open>
  How the loop can end when it runs through states satisfying \<open>P\<close>: with the error of a
  round, with an empty queue, or by the \<^verbatim>\<open>break\<close> of a round.
\<close>

definition ended ::
  "(search \<Rightarrow> bool) \<Rightarrow> World \<Rightarrow> Vector2 \<Rightarrow> error + Vector2 option \<times> search \<Rightarrow> bool" where
  "ended P w e r =
     (case r of
        Inl exn \<Rightarrow> (\<exists>st. P st \<and> looking_at st \<noteq> [] \<and> a_star_round w e st = Inl exn)
      | Inr (c, st') \<Rightarrow>
          (P st' \<and> looking_at st' = [])
          \<or> (\<exists>st c'. P st \<and> looking_at st \<noteq> [] \<and> a_star_round w e st = Inr (Break c' st')
                \<and> c = Some c'))"

subsection \<open>Sample grids\<close>

text \<open>The one-cell grid read from the line \<open>0\<close>.\<close>

definition one_cell :: World where
  "one_cell = \<lparr>data = [[''0'']], width = 1, height = 1\<rparr>"

text \<open>
  The grid with the rows \<open>0 0 1\<close>, \<open>1 0 1\<close> and \<open>0 0 0\<close>.
\<close>

definition walled :: World where
  "walled = \<lparr>data = [[''0'', ''0'', ''1''], [''1'', ''0'', ''1''], [''0'', ''0'', ''0'']],
             width = 3, height = 3\<rparr>"

text \<open>The one-row grid \<open>0 1 0\<close>: a wall between its two free cells.\<close>

definition blocked :: World where
  "blocked = \<lparr>data = [[''0'', ''1'', ''0'']], width = 3, height = 1\<rparr>"

section \<open>The grid\<close>

text \<open>
  Inside a rectangular grid both list accesses of \<^verbatim>\<open>__getitem__\<close> are in range, so
  \<^verbatim>\<open>is_empty\<close> reads the entry of the cell.
\<close>

lemma is_empty_inside:
  assumes "rectangular w" "point_inside w p"
  shows "World_is_empty w p = Inr (free w p)"
proof -
  obtain x y where p: "p = (x, y)" by (cases p)
  from assms p have b: "0 \<le> x" "x < width w" "0 \<le> y" "y < int (length (data w))"
    by (auto simp: point_inside_def rectangular_def split: if_splits)
  then have "data w ! nat y \<in> set (data w)" by simp
  with assms(1) have "int (length (data w ! nat y)) = width w" by (simp add: rectangular_def)
  with b show ?thesis
    by (simp add: World_is_empty_def getitem_def list_index_def free_def p)
qed

lemma neighbours_loop_filter:
  "neighbours_loop w cands acc = Inr ns \<Longrightarrow>
   ns = acc @ filter (\<lambda>n. point_inside w n \<and> World_is_empty w n = Inr True) cands"
  by (induction cands arbitrary: acc) (fastforce split: if_splits sum.splits)+

lemma neighbours_loop_rect:
  "rectangular w \<Longrightarrow> neighbours_loop w cands acc = Inr (acc @ filter (passable w) cands)"
  by (induction cands arbitrary: acc) (auto simp: is_empty_inside passable_def)

lemma neighbours_step:
  "neighbours w p = Inr ns \<Longrightarrow> n \<in> set ns \<longleftrightarrow> step w p n"
  by (auto simp: neighbours_def step_def dest!: neighbours_loop_filter)

lemma neighbours_rect:
  "rectangular w \<Longrightarrow> neighbours w p = Inr (filter (passable w) (potential p))"
  by (simp add: neighbours_def neighbours_loop_rect)

lemma potential_distance: "q \<in> set (potential p) \<longleftrightarrow> cartesian_distance p q = 1"
  by (cases p; cases q) (auto simp: potential_def cartesian_distance_def)

lemma step_rect:
  "rectangular w \<Longrightarrow> step w p q \<longleftrightarrow> cartesian_distance p q = 1 \<and> passable w q"
  by (auto simp: step_def potential_distance is_empty_inside passable_def)

lemma rectangular_one_cell: "rectangular one_cell"
  by (simp add: rectangular_def one_cell_def)

lemma rectangular_walled: "rectangular walled"
  by (simp add: rectangular_def walled_def)

lemma rectangular_blocked: "rectangular blocked"
  by (simp add: rectangular_def blocked_def)

text \<open>The constructor yields a rectangular grid when all lines have as many entries.\<close>

lemma World_init_rectangular:
  assumes "World_init env = Inr w"
    and "\<forall>row \<in> set env. length (str_split row) = length (str_split (hd env))"
  shows "rectangular w"
proof (cases env)
  case Nil
  with assms(1) show ?thesis by (simp add: World_init_def)
next
  case (Cons r rs)
  with assms(1) have "w = \<lparr>data = map str_split env, width = int (length (str_split r)),
      height = int (length env)\<rparr>"
    by (auto simp: World_init_def)
  with assms(2) Cons show ?thesis by (simp add: rectangular_def)
qed

lemma World_init_one_cell: "World_init [''0''] = Inr one_cell"
  by (simp add: World_init_def str_split_def isspace_def one_cell_def)

lemma World_init_walled: "World_init [''0 0 1'', ''1 0 1'', ''0 0 0''] = Inr walled"
  by (simp add: World_init_def str_split_def isspace_def walled_def)

text \<open>
  C5, as stated, for every cell: \<^verbatim>\<open>is_empty\<close> answers true exactly for the cells that are inside
  the grid and not a wall. The query does not look at the bounds. On the one-cell grid the
  cell \<open>(-1, 0)\<close> is outside, the index \<open>-1\<close> selects the last entry of the row, and the
  answer is true.
\<close>

theorem is_empty_outside_counterexample:
  "World_is_empty one_cell (- 1, 0) = Inr True \<and> \<not> point_inside one_cell (- 1, 0)"
  by (simp add: World_is_empty_def getitem_def list_index_def point_inside_def one_cell_def)

text \<open>
  C5, amended: on a rectangular grid, for every cell inside the grid, \<^verbatim>\<open>is_empty\<close> returns
  true if and only if the entry of the cell is \<open>0\<close>, that is, the cell is not a wall.
\<close>

theorem is_empty_iff_free_inside:
  "rectangular w \<Longrightarrow> point_inside w p \<Longrightarrow> World_is_empty w p = Inr (free w p)"
  by (rule is_empty_inside)

theorem is_empty_iff_free_inside_witness:
  "rectangular walled \<and> point_inside walled (0, 1) \<and> World_is_empty walled (0, 1) = Inr False"
  using is_empty_iff_free_inside [of walled "(0, 1)"]
  by (simp add: rectangular_walled) (simp add: point_inside_def free_def walled_def)

text \<open>
  C6: on a rectangular grid, \<^verbatim>\<open>neighbours\<close> returns exactly those of the four cells
  \<open>(x-1, y)\<close>, \<open>(x+1, y)\<close>, \<open>(x, y+1)\<close>, \<open>(x, y-1)\<close> that are inside the grid and free, in
  this order: left, right, down, up. This holds for every cell, those inside the grid among
  them.
\<close>

theorem neighbours_exact:
  "rectangular w \<Longrightarrow>
   neighbours w (x, y) = Inr (filter (passable w) [(x - 1, y), (x + 1, y), (x, y + 1), (x, y - 1)])"
  using neighbours_rect [of w "(x, y)"] by (simp add: potential_def)

theorem neighbours_exact_witness:
  "rectangular walled \<and> neighbours walled (1, 1) = Inr [(1, 2), (1, 0)]"
  using neighbours_exact [of walled 1 1]
  by (simp add: rectangular_walled) (simp add: passable_def point_inside_def free_def walled_def)

section \<open>The priority queue\<close>

text \<open>
  Stability of the sort is what relates the list of the source to the insertion order: the
  sort keeps, for each priority, the entries of that priority in their order.
\<close>

lemma same_ties_set: assumes "same_ties c a" shows "set c = set a"
proof -
  have "x \<in> set c \<longleftrightarrow> x \<in> set a" for x
  proof -
    have "x \<in> set c \<longleftrightarrow> x \<in> set (filter (\<lambda>e. fst e = fst x) c)" by simp
    also have "\<dots> \<longleftrightarrow> x \<in> set (filter (\<lambda>e. fst e = fst x) a)"
      using assms by (simp only: same_ties_def)
    also have "\<dots> \<longleftrightarrow> x \<in> set a" by simp
    finally show ?thesis .
  qed
  then show ?thesis by blast
qed

lemma same_ties_sort: "same_ties (sort_key fst c) c"
  by (simp add: same_ties_def sort_key_stable)

lemma same_ties_trans: "same_ties a b \<Longrightarrow> same_ties b c \<Longrightarrow> same_ties a c"
  by (simp add: same_ties_def)

lemma same_ties_put: "same_ties c a \<Longrightarrow> same_ties (PriorityQueue_put c d p) (a @ [(p, d)])"
  by (simp add: same_ties_def PriorityQueue_put_def)

lemma sorted_hd_min:
  assumes "sorted (map fst s)" "s \<noteq> []" "e \<in> set s"
  shows "fst (hd s) \<le> fst e"
  using assms by (cases s) auto

lemma pop_same_ties:
  assumes R: "same_ties c a" and ne: "c \<noteq> []"
  shows "PriorityQueue_pop c = (Some (snd (earliest_min a)), tl (sort_key fst c))
         \<and> hd (sort_key fst c) = earliest_min a
         \<and> same_ties (tl (sort_key fst c)) (remove1 (earliest_min a) a)"
proof -
  define s where "s = sort_key fst c"
  have sne: "s \<noteq> []" using ne by (auto simp: s_def dest: arg_cong[where f=length])
  have Rs: "same_ties s a" using same_ties_trans[OF same_ties_sort R] by (simp add: s_def)
  have sets: "set s = set a" by (rule same_ties_set[OF Rs])
  have srt: "sorted (map fst s)" by (simp add: s_def)
  define m where "m = fst (hd s)"
  have hd_in: "hd s \<in> set s" using sne by simp
  have "Min (fst ` set a) = m"
  proof (rule Min_eqI)
    show "finite (fst ` set a)" by simp
    show "m \<in> fst ` set a" using hd_in sets by (auto simp: m_def)
    fix y assume "y \<in> fst ` set a"
    then obtain e where "e \<in> set s" "y = fst e" using sets by auto
    then show "m \<le> y" using sorted_hd_min[OF srt sne] by (simp add: m_def)
  qed
  moreover have fm: "filter (\<lambda>e. fst e = m) a = filter (\<lambda>e. fst e = m) s"
    using Rs by (simp add: same_ties_def)
  moreover have hdf: "filter (\<lambda>e. fst e = m) s = hd s # filter (\<lambda>e. fst e = m) (tl s)"
    using sne by (cases s) (auto simp: m_def)
  ultimately have em: "earliest_min a = hd s" by (simp add: earliest_min_def)
  have "same_ties (tl s) (remove1 (hd s) a)"
    unfolding same_ties_def
  proof
    fix k
    show "filter (\<lambda>e. fst e = k) (tl s) = filter (\<lambda>e. fst e = k) (remove1 (hd s) a)"
    proof (cases "k = m")
      case True
      have "filter (\<lambda>e. fst e = m) (remove1 (hd s) a) = remove1 (hd s) (filter (\<lambda>e. fst e = m) a)"
        by (simp add: filter_remove1)
      also have "\<dots> = filter (\<lambda>e. fst e = m) (tl s)" by (simp add: fm hdf)
      finally show ?thesis using True by simp
    next
      case False
      have "filter (\<lambda>e. fst e = k) (remove1 (hd s) a) = remove1 (hd s) (filter (\<lambda>e. fst e = k) a)"
        by (simp add: filter_remove1)
      also have "\<dots> = filter (\<lambda>e. fst e = k) a"
        using False by (intro remove1_idem) (auto simp: m_def)
      also have "\<dots> = filter (\<lambda>e. fst e = k) s" using Rs by (simp add: same_ties_def)
      also have "\<dots> = filter (\<lambda>e. fst e = k) (tl s)"
        using sne False by (cases s) (auto simp: m_def)
      finally show ?thesis by simp
    qed
  qed
  with em ne show ?thesis
    by (simp add: PriorityQueue_pop_def PriorityQueue_empty_def s_def Let_def)
qed

lemma run_ops_refine: "same_ties c a \<Longrightarrow> run_ops ops c = run_ops_spec ops a"
proof (induction ops arbitrary: c a)
  case Nil
  then show ?case by simp
next
  case (Cons x ops)
  show ?case
  proof (cases x)
    case (Put d p)
    then show ?thesis using Cons.IH[OF same_ties_put[OF Cons.prems]] by simp
  next
    case Pop
    show ?thesis
    proof (cases "c = []")
      case True
      then have "a = []" using same_ties_set[OF Cons.prems] by simp
      with True Pop Cons.IH[OF Cons.prems] show ?thesis
        by (simp add: PriorityQueue_pop_def PriorityQueue_empty_def pop_earliest_min_def)
    next
      case False
      then have "a \<noteq> []" using same_ties_set[OF Cons.prems] by auto
      with Pop pop_same_ties[OF Cons.prems False] Cons.IH show ?thesis
        by (simp add: pop_earliest_min_def)
    qed
  qed
qed

text \<open>
  On a list \<open>q\<close> of entries, \<^verbatim>\<open>pop\<close> returns the data of the first entry of least priority
  and leaves the other entries, sorted.
\<close>

lemma same_ties_refl: "same_ties q q"
  by (simp add: same_ties_def)

lemma pop_rest:
  assumes ne: "q \<noteq> []"
  shows "tl (sort_key fst q) = sort_key fst (remove1 (earliest_min q) q)"
proof -
  define s where "s = sort_key fst q"
  define e where "e = earliest_min q"
  from pop_same_ties[OF same_ties_refl ne]
  have hd: "hd s = e" and ties: "same_ties (tl s) (remove1 e q)"
    by (simp_all add: s_def e_def)
  have sne: "s \<noteq> []" using ne by (auto simp: s_def dest: arg_cong[where f=length])
  then have dec: "s = e # tl s" using hd by (cases s) auto
  have "mset s = mset q" by (simp add: s_def)
  with dec have "add_mset e (mset (tl s)) = mset q" by (metis mset.simps(2))
  then have m: "mset (tl s) = mset (remove1 e q)" by (metis add_mset_remove_trivial mset_remove1)
  have srt: "sorted (map fst (tl s))"
    using sorted_tl[of "map fst s"] by (simp add: s_def map_tl)
  have "sort_key fst (remove1 e q) = tl s"
  proof (rule properties_for_sort_key[OF m _ srt])
    fix k assume "k \<in> set (tl s)"
    have "filter (\<lambda>x. fst x = fst k) (tl s) = filter (\<lambda>x. fst x = fst k) (remove1 e q)"
      using ties by (simp add: same_ties_def)
    then show "filter (\<lambda>x. fst k = fst x) (tl s) = filter (\<lambda>x. fst k = fst x) (remove1 e q)"
      by (simp add: eq_commute[of "fst k"])
  qed
  then show ?thesis by (simp add: s_def e_def)
qed

lemma pop_explicit:
  "PriorityQueue_pop q =
     (if q = [] then (None, q)
      else (Some (snd (earliest_min q)), sort_key fst (remove1 (earliest_min q) q)))"
proof (cases "q = []")
  case True
  then show ?thesis by (simp add: PriorityQueue_pop_def PriorityQueue_empty_def)
next
  case False
  from pop_same_ties[OF same_ties_refl False] pop_rest[OF False] False show ?thesis by simp
qed

text \<open>
  C10: on a non-empty queue \<^verbatim>\<open>pop\<close> removes and returns the data of an entry of least
  priority, and among the entries of least priority the one inserted earliest. First, over
  whole histories: whatever calls of \<^verbatim>\<open>put\<close> and \<^verbatim>\<open>pop\<close> are made on an initially empty queue,
  the \<^verbatim>\<open>pop\<close> calls of the source return what the reference queue returns, which keeps the
  insertion order and extracts the earliest entry of least priority. Second, for one call on
  any list of entries: the entry taken is the first of least priority in the list, and it is
  removed. The search is a function of the start, the end and the grid, so two runs on the
  same input give the same path.
\<close>

theorem pop_earliest_of_least_priority:
  "run_ops ops [] = run_ops_spec ops []
   \<and> PriorityQueue_pop q =
       (if q = [] then (None, q)
        else (Some (snd (earliest_min q)), sort_key fst (remove1 (earliest_min q) q)))"
  using run_ops_refine [of "[]" "[]" ops] pop_explicit [of q] by (simp add: same_ties_def)

text \<open>What one \<^verbatim>\<open>pop\<close> does to a queue, as the search uses it.\<close>

lemma pop_Some:
  assumes "PriorityQueue_pop q = (Some d, q')"
  shows "\<exists>f. (f, d) \<in> set q \<and> (\<forall>e \<in> set q. f \<le> fst e) \<and> set q = insert (f, d) (set q')
             \<and> length q = Suc (length q')"
proof -
  from assms have ne: "q \<noteq> []" by (auto simp: PriorityQueue_pop_def PriorityQueue_empty_def)
  define s where "s = sort_key fst q"
  have sne: "s \<noteq> []" using ne by (auto simp: s_def dest: arg_cong[where f=length])
  have d: "d = snd (hd s)" and q': "q' = tl s"
    using assms ne by (auto simp: PriorityQueue_pop_def PriorityQueue_empty_def s_def Let_def)
  have srt: "sorted (map fst s)" by (simp add: s_def)
  have sets: "set s = set q" by (simp add: s_def)
  have len: "length s = length q" by (simp add: s_def)
  have dec: "s = hd s # tl s" using sne by simp
  have "(fst (hd s), d) \<in> set q" using sne sets d by (metis hd_in_set prod.collapse)
  moreover have "\<forall>e \<in> set q. fst (hd s) \<le> fst e" using sorted_hd_min[OF srt sne] sets by simp
  moreover have "set q = insert (fst (hd s), d) (set q')"
    using dec d q' sets by (metis list.simps(15) prod.collapse)
  moreover have "length q = Suc (length q')" using dec q' len by (metis length_Cons)
  ultimately show ?thesis by blast
qed

lemma pop_None: "PriorityQueue_pop q = (None, q') \<Longrightarrow> q = []"
  by (auto simp: PriorityQueue_pop_def PriorityQueue_empty_def Let_def split: if_splits)


section \<open>The search\<close>

subsection \<open>One visit and one pass over the neighbours\<close>

lemma cost_mono_refl: "cost_mono st st"
  by (simp add: cost_mono_def)

lemma cost_mono_trans: "cost_mono a b \<Longrightarrow> cost_mono b c \<Longrightarrow> cost_mono a c"
  unfolding cost_mono_def by (metis less_trans)

lemma cost_mono_le: "cost_mono st st' \<Longrightarrow> cost st p = Some c \<Longrightarrow> \<exists>c'. cost st' p = Some c' \<and> c' \<le> c"
  unfolding cost_mono_def by (metis less_le order_refl)

text \<open>The two outcomes of a visit that returns.\<close>

lemma visit_cases:
  assumes "visit e cur st n = Inr st'"
  obtains (same) c old where "cost st cur = Some c" "cost st n = Some old" "old \<le> c + 1" "st' = st"
  | (upd) c where "cost st cur = Some c"
      "cost st n = None \<or> (\<exists>old. cost st n = Some old \<and> c + 1 < old)"
      "st' = \<lparr>looking_at = looking_at st @ [(c + 1 + cartesian_distance e n, n)],
              parent = (parent st)(n \<mapsto> Some cur),
              cost = (cost st)(n \<mapsto> c + 1)\<rparr>"
proof (cases "cost st cur")
  case None
  with assms show ?thesis by (simp add: visit_def)
next
  case (Some c)
  show ?thesis
  proof (cases "cost st n = None \<or> c + 1 < the (cost st n)")
    case True
    with Some assms have a: "st' = \<lparr>looking_at = looking_at st @ [(c + 1 + cartesian_distance e n, n)],
              parent = (parent st)(n \<mapsto> Some cur),
              cost = (cost st)(n \<mapsto> c + 1)\<rparr>"
      by (simp add: visit_def Let_def PriorityQueue_put_def)
    from True have b: "cost st n = None \<or> (\<exists>old. cost st n = Some old \<and> c + 1 < old)"
      by (cases "cost st n") simp_all
    show ?thesis by (rule upd[OF Some b a])
  next
    case False
    with Some assms have a: "st' = st" by (simp add: visit_def Let_def)
    from False obtain old where b: "cost st n = Some old" "old \<le> c + 1"
      by (cases "cost st n") simp_all
    show ?thesis by (rule same[OF Some b a])
  qed
qed

text \<open>
  A visit writes a cost only for a cell that has none or a higher one, so costs never rise
  and no key is lost.
\<close>

lemma visit_cost_mono: "visit e cur st n = Inr st' \<Longrightarrow> cost_mono st st'"
  by (erule visit_cases) (auto simp: cost_mono_def)

lemma visit_all_cost_mono: "visit_all e cur ns st = Inr st' \<Longrightarrow> cost_mono st st'"
proof (induction ns arbitrary: st)
  case Nil
  then show ?case by (simp add: cost_mono_refl)
next
  case (Cons n ns)
  then show ?case
    by (auto split: sum.splits intro: cost_mono_trans visit_cost_mono)
qed

text \<open>
  A visit leaves the cost of \<^verbatim>\<open>current\<close> alone and leaves the visited cell with a cost of at
  most one more. Hence a pass over the neighbours never raises KeyError once \<^verbatim>\<open>current\<close>
  has a cost.
\<close>

lemma visit_current:
  assumes "cost st cur = Some c" "visit e cur st n = Inr st'"
  shows "cost st' cur = Some c \<and> (\<exists>c'. cost st' n = Some c' \<and> c' \<le> c + 1)"
  using assms(2)
proof (cases rule: visit_cases)
  case (same c0 old)
  with assms show ?thesis by auto
next
  case (upd c0)
  with assms show ?thesis by auto
qed

lemma visit_all_current:
  "cost st cur = Some c \<Longrightarrow> visit_all e cur ns st = Inr st' \<Longrightarrow>
   cost st' cur = Some c \<and> (\<forall>n \<in> set ns. \<exists>c'. cost st' n = Some c' \<and> c' \<le> c + 1)"
proof (induction ns arbitrary: st)
  case Nil
  then show ?case by simp
next
  case (Cons n ns)
  from Cons.prems(2) obtain st1 where v: "visit e cur st n = Inr st1"
    and r: "visit_all e cur ns st1 = Inr st'"
    by (auto split: sum.splits)
  from visit_current[OF Cons.prems(1) v] obtain c1 where
    c1: "cost st1 cur = Some c" "cost st1 n = Some c1" "c1 \<le> c + 1" by blast
  from Cons.IH[OF c1(1) r] have ih: "cost st' cur = Some c"
    "\<forall>n \<in> set ns. \<exists>c'. cost st' n = Some c' \<and> c' \<le> c + 1" by auto
  from cost_mono_le[OF visit_all_cost_mono[OF r] c1(2)] c1(3)
  have "\<exists>c'. cost st' n = Some c' \<and> c' \<le> c + 1" by auto
  with ih show ?case by simp
qed

lemma visit_returns: "cost st cur \<noteq> None \<Longrightarrow> \<exists>st'. visit e cur st n = Inr st'"
  by (auto simp: visit_def Let_def)

lemma visit_all_returns: "cost st cur \<noteq> None \<Longrightarrow> \<exists>st'. visit_all e cur ns st = Inr st'"
proof (induction ns arbitrary: st)
  case Nil
  then show ?case by simp
next
  case (Cons n ns)
  from visit_returns[OF Cons.prems] obtain st1 where v: "visit e cur st n = Inr st1" by blast
  from Cons.prems obtain c where "cost st cur = Some c" by auto
  from visit_current[OF this v] have "cost st1 cur \<noteq> None" by simp
  from Cons.IH[OF this] v show ?case by simp
qed

text \<open>The three invariants are kept by a visit, hence by a pass over the neighbours.\<close>

lemma visit_tree:
  assumes inv: "tree_inv w s st" and stp: "step w cur n" and v: "visit e cur st n = Inr st'"
  shows "tree_inv w s st'"
  using v
proof (cases rule: visit_cases)
  case same
  with inv show ?thesis by simp
next
  case (upd c)
  from inv have s0: "cost st s = Some 0" and ps: "parent st s = Some None" and nn: "nonneg st"
    and qs: "\<forall>x \<in> set (looking_at st). cost st (snd x) \<noteq> None"
    and pn: "\<forall>p. cost st p = None \<longrightarrow> parent st p = None"
    and tr: "\<forall>p c. cost st p = Some c \<longrightarrow> p \<noteq> s \<longrightarrow>
            (\<exists>q cq. parent st p = Some (Some q) \<and> cost st q = Some cq \<and> cq + 1 \<le> c \<and> step w q p)"
    by (auto simp: tree_inv_def)
  from nn upd(1) have c0: "0 \<le> c" unfolding nonneg_def by blast
  from upd(2) s0 c0 have ns: "n \<noteq> s" by auto
  from upd(1,2) have nc: "n \<noteq> cur" by auto
  have 1: "cost st' s = Some 0" "parent st' s = Some None" using ns s0 ps upd(3) by auto
  have 2: "nonneg st'" using nn c0 upd(3) unfolding nonneg_def by (simp split: if_splits)
  have 3: "\<forall>x \<in> set (looking_at st'). cost st' (snd x) \<noteq> None" using qs upd(3) by auto
  have 4: "\<forall>p. cost st' p = None \<longrightarrow> parent st' p = None" using pn upd(3) by auto
  have 5: "\<exists>q cq. parent st' p = Some (Some q) \<and> cost st' q = Some cq \<and> cq + 1 \<le> c' \<and> step w q p"
    if a: "cost st' p = Some c'" "p \<noteq> s" for p c'
  proof (cases "p = n")
    case True
    with a upd nc stp show ?thesis by auto
  next
    case False
    with a upd(3) have "cost st p = Some c'" by simp
    with tr a(2) obtain q cq where q: "parent st p = Some (Some q)" "cost st q = Some cq"
      "cq + 1 \<le> c'" "step w q p" by blast
    show ?thesis
    proof (cases "q = n")
      case True
      with q(2) upd(2) have "c + 1 < cq" by auto
      with q True False upd(3) show ?thesis by auto
    next
      case qn: False
      with q False upd(3) show ?thesis by auto
    qed
  qed
  from 1 2 3 4 5 show ?thesis unfolding tree_inv_def by blast
qed

lemma visit_all_tree:
  "tree_inv w s st \<Longrightarrow> \<forall>n \<in> set ns. step w cur n \<Longrightarrow> visit_all e cur ns st = Inr st' \<Longrightarrow>
   tree_inv w s st'"
proof (induction ns arbitrary: st)
  case Nil
  then show ?case by simp
next
  case (Cons n ns)
  from Cons.prems(3) obtain st1 where v: "visit e cur st n = Inr st1"
    and r: "visit_all e cur ns st1 = Inr st'"
    by (auto split: sum.splits)
  from Cons.prems(2) have "step w cur n" by simp
  from visit_tree[OF Cons.prems(1) this v] Cons.IH[OF _ _ r] Cons.prems(2) show ?case by simp
qed

lemma visit_frontier:
  assumes inv: "frontier_inv w e X st" and v: "visit e cur st n = Inr st'"
  shows "frontier_inv w e X st'"
  using v
proof (cases rule: visit_cases)
  case same
  with inv show ?thesis by simp
next
  case (upd c)
  have mono: "cost_mono st st'" by (rule visit_cost_mono[OF v])
  show ?thesis unfolding frontier_inv_def
  proof (intro allI impI)
    fix p c' assume px: "p \<notin> X" and cp: "cost st' p = Some c'"
    show "(\<exists>f. (f, p) \<in> set (looking_at st') \<and> f \<le> c' + cartesian_distance e p)
        \<or> (\<forall>m. step w p m \<longrightarrow> (\<exists>c''. cost st' m = Some c'' \<and> c'' \<le> c' + 1))"
    proof (cases "p = n")
      case True
      with cp upd(3) show ?thesis by auto
    next
      case False
      with cp upd(3) have old: "cost st p = Some c'" by simp
      from inv px old have "(\<exists>f. (f, p) \<in> set (looking_at st) \<and> f \<le> c' + cartesian_distance e p)
        \<or> (\<forall>m. step w p m \<longrightarrow> (\<exists>c''. cost st m = Some c'' \<and> c'' \<le> c' + 1))"
        unfolding frontier_inv_def by blast
      then show ?thesis
      proof
        assume "\<exists>f. (f, p) \<in> set (looking_at st) \<and> f \<le> c' + cartesian_distance e p"
        then show ?thesis using upd(3) by auto
      next
        assume cl: "\<forall>m. step w p m \<longrightarrow> (\<exists>c''. cost st m = Some c'' \<and> c'' \<le> c' + 1)"
        have "\<exists>c''. cost st' m = Some c'' \<and> c'' \<le> c' + 1" if "step w p m" for m
        proof -
          from cl that obtain c1 where "cost st m = Some c1" "c1 \<le> c' + 1" by blast
          with cost_mono_le[OF mono this(1)] show ?thesis by auto
        qed
        then show ?thesis by blast
      qed
    qed
  qed
qed

lemma visit_all_frontier:
  "frontier_inv w e X st \<Longrightarrow> visit_all e cur ns st = Inr st' \<Longrightarrow> frontier_inv w e X st'"
proof (induction ns arbitrary: st)
  case Nil
  then show ?case by simp
next
  case (Cons n ns)
  then show ?case by (auto split: sum.splits dest: visit_frontier)
qed

lemma visit_goal:
  assumes inv: "goal_entries e st" and v: "visit e cur st n = Inr st'"
  shows "goal_entries e st'"
  using v
proof (cases rule: visit_cases)
  case same
  with inv show ?thesis by simp
next
  case (upd c)
  have mono: "cost_mono st st'" by (rule visit_cost_mono[OF v])
  show ?thesis unfolding goal_entries_def
  proof (intro allI impI)
    fix f assume f: "(f, e) \<in> set (looking_at st')"
    show "\<exists>c. cost st' e = Some c \<and> c \<le> f"
    proof (cases "(f, e) \<in> set (looking_at st)")
      case True
      with inv obtain c1 where "cost st e = Some c1" "c1 \<le> f" unfolding goal_entries_def by blast
      with cost_mono_le[OF mono this(1)] show ?thesis by auto
    next
      case False
      with f upd(3) have "n = e" "f = c + 1 + cartesian_distance e n" by auto
      with upd(3) show ?thesis by (simp add: cartesian_distance_def)
    qed
  qed
qed

lemma visit_all_goal:
  "goal_entries e st \<Longrightarrow> visit_all e cur ns st = Inr st' \<Longrightarrow> goal_entries e st'"
proof (induction ns arbitrary: st)
  case Nil
  then show ?case by simp
next
  case (Cons n ns)
  then show ?case by (auto split: sum.splits dest: visit_goal)
qed

subsection \<open>Why the loop ends\<close>

text \<open>
  The grid has finitely many cells, and every visited cell is one of them. A visit that
  changes the state gives a cost to a cell that had none, or lowers a cost that is not
  negative; a round that changes no cost has removed one entry from the queue.
\<close>

lemma finite_inside: "finite {p. point_inside w p}"
proof -
  have "{p. point_inside w p} \<subseteq> {0..<width w} \<times> {0..<height w}"
    by (auto simp: point_inside_def split: if_splits)
  then show ?thesis by (rule finite_subset) simp
qed

lemma lower_rank_trans: "lower_rank w a b \<Longrightarrow> lower_rank w b c \<Longrightarrow> lower_rank w a c"
  unfolding lower_rank_def by linarith

lemma visit_nonneg: "nonneg st \<Longrightarrow> visit e cur st n = Inr st' \<Longrightarrow> nonneg st'"
proof (erule visit_cases)
  fix c
  assume nn: "nonneg st" and c: "cost st cur = Some c"
    and st': "st' = \<lparr>looking_at = looking_at st @ [(c + 1 + cartesian_distance e n, n)],
              parent = (parent st)(n \<mapsto> Some cur), cost = (cost st)(n \<mapsto> c + 1)\<rparr>"
  from nn c have "0 \<le> c" unfolding nonneg_def by blast
  with nn st' show "nonneg st'" unfolding nonneg_def by (simp split: if_splits)
qed simp

lemma visit_all_nonneg: "nonneg st \<Longrightarrow> visit_all e cur ns st = Inr st' \<Longrightarrow> nonneg st'"
proof (induction ns arbitrary: st)
  case Nil
  then show ?case by simp
next
  case (Cons n ns)
  then show ?case by (auto split: sum.splits dest: visit_nonneg)
qed

lemma visit_rank:
  assumes nn: "nonneg st" and ins: "point_inside w n" and v: "visit e cur st n = Inr st'"
  shows "st' = st \<or> lower_rank w st' st"
  using v
proof (cases rule: visit_cases)
  case (same c old)
  then show ?thesis by simp
next
  case (upd c)
  let ?A = "{p. point_inside w p}"
  let ?g = "\<lambda>st p. case cost st p of None \<Rightarrow> 0 | Some c \<Rightarrow> nat c"
  from nn upd(1) have c0: "0 \<le> c" unfolding nonneg_def by blast
  have cst: "cost st' = (cost st)(n \<mapsto> c + 1)" using upd(3) by simp
  from upd(2) show ?thesis
  proof
    assume none: "cost st n = None"
    define U where "U = {p. point_inside w p \<and> cost st p = None}"
    have eq: "{p. point_inside w p \<and> cost st' p = None} = U - {n}"
      using cst by (auto simp: U_def)
    have mem: "n \<in> U" using ins none by (simp add: U_def)
    have fin: "finite U"
      using finite_inside[of w] by (simp add: U_def)
    have "card (U - {n}) < card U" by (rule card_Diff1_less[OF fin mem])
    then have "unset w st' < unset w st"
      unfolding unset_def eq by (simp add: U_def)
    then show ?thesis by (simp add: lower_rank_def)
  next
    assume "\<exists>old. cost st n = Some old \<and> c + 1 < old"
    then obtain old where old: "cost st n = Some old" "c + 1 < old" by blast
    have "{p. point_inside w p \<and> cost st' p = None} = {p. point_inside w p \<and> cost st p = None}"
      using cst old by auto
    then have u: "unset w st' = unset w st" by (simp add: unset_def)
    have nA: "n \<in> ?A" using ins by simp
    have rest: "sum (?g st') (?A - {n}) = sum (?g st) (?A - {n})"
      by (rule sum.cong) (auto simp: cst)
    have "sum (?g st') ?A = ?g st' n + sum (?g st') (?A - {n})"
      by (rule sum.remove[OF finite_inside nA])
    moreover have "sum (?g st) ?A = ?g st n + sum (?g st) (?A - {n})"
      by (rule sum.remove[OF finite_inside nA])
    moreover have "?g st' n < ?g st n" using old c0 cst by simp
    ultimately have "cost_sum w st' < cost_sum w st" using rest by (simp add: cost_sum_def)
    with u show ?thesis by (simp add: lower_rank_def)
  qed
qed

lemma visit_all_rank:
  "nonneg st \<Longrightarrow> \<forall>n \<in> set ns. point_inside w n \<Longrightarrow> visit_all e cur ns st = Inr st' \<Longrightarrow>
   st' = st \<or> lower_rank w st' st"
proof (induction ns arbitrary: st)
  case Nil
  then show ?case by simp
next
  case (Cons n ns)
  from Cons.prems(3) obtain st1 where v: "visit e cur st n = Inr st1"
    and r: "visit_all e cur ns st1 = Inr st'"
    by (auto split: sum.splits)
  from Cons.prems(2) have ins: "point_inside w n" and rest: "\<forall>n \<in> set ns. point_inside w n"
    by simp_all
  have 1: "st1 = st \<or> lower_rank w st1 st" by (rule visit_rank[OF Cons.prems(1) ins v])
  have 2: "st' = st1 \<or> lower_rank w st' st1"
    by (rule Cons.IH[OF visit_nonneg[OF Cons.prems(1) v] rest r])
  from 1 2 show ?case by (auto intro: lower_rank_trans)
qed

text \<open>The ways a round can end, read off its definition.\<close>

lemma round_Continue:
  assumes "a_star_round w e st = Inr (Continue c st')"
  obtains q ns where "PriorityQueue_pop (looking_at st) = (Some c, q)" "c \<noteq> e"
    "neighbours w c = Inr ns" "visit_all e c ns (st\<lparr>looking_at := q\<rparr>) = Inr st'"
  using assms
  by (auto simp: a_star_round_def split: prod.splits option.splits if_splits sum.splits)

lemma round_Break:
  assumes "a_star_round w e st = Inr (Break c st')"
  obtains q where "PriorityQueue_pop (looking_at st) = (Some c, q)" "c = e"
    "st' = st\<lparr>looking_at := q\<rparr>"
  using assms
  by (auto simp: a_star_round_def split: prod.splits option.splits if_splits sum.splits)

lemma round_Inl:
  assumes "a_star_round w e st = Inl exn"
  obtains (empty) "looking_at st = []"
  | (nbrs) c q where "PriorityQueue_pop (looking_at st) = (Some c, q)" "neighbours w c = Inl exn"
  | (vis) c q ns where "PriorityQueue_pop (looking_at st) = (Some c, q)" "neighbours w c = Inr ns"
      "visit_all e c ns (st\<lparr>looking_at := q\<rparr>) = Inl exn"
  using assms
  by (auto simp: a_star_round_def split: prod.splits option.splits if_splits sum.splits
      dest: pop_None)

lemma neighbours_inside: "neighbours w p = Inr ns \<Longrightarrow> n \<in> set ns \<Longrightarrow> point_inside w n"
  by (simp add: neighbours_step step_def)

lemma round_rank:
  assumes nn: "nonneg st" and r: "a_star_round w e st = Inr (Continue c st')"
  shows "(rank w st', rank w st) \<in> less_than <*lex*> less_than <*lex*> less_than"
  using r
proof (cases rule: round_Continue)
  case (1 q ns)
  let ?st1 = "st\<lparr>looking_at := q\<rparr>"
  from pop_Some[OF 1(1)] have len: "length (looking_at st) = Suc (length q)" by blast
  have nn1: "nonneg ?st1" using nn by (simp add: nonneg_def)
  have ins: "\<forall>n \<in> set ns. point_inside w n" using neighbours_inside[OF 1(3)] by blast
  have u: "unset w ?st1 = unset w st" "cost_sum w ?st1 = cost_sum w st"
    by (simp_all add: unset_def cost_sum_def)
  from visit_all_rank[OF nn1 ins 1(4)] show ?thesis
  proof
    assume "st' = ?st1"
    with len u show ?thesis by (simp add: rank_def)
  next
    assume "lower_rank w st' ?st1"
    with u show ?thesis by (auto simp: rank_def lower_rank_def)
  qed
qed

lemma round_nonneg:
  assumes nn: "nonneg st" and r: "a_star_round w e st = Inr (Continue c st')"
  shows "nonneg st'"
  using r
proof (cases rule: round_Continue)
  case (1 q ns)
  have "nonneg (st\<lparr>looking_at := q\<rparr>)" using nn by (simp add: nonneg_def)
  from visit_all_nonneg[OF this 1(4)] show ?thesis .
qed

text \<open>
  The rule for the loop: started in a state satisfying \<open>P\<close>, where \<open>P\<close> is kept by every
  round that continues and implies that no cost is negative, the loop returns, and it ends
  in one of the ways listed by \<^const>\<open>ended\<close>. The proof is by well-founded induction on the
  rank of the state.
\<close>

lemma loop_rule:
  assumes P0: "P st0"
    and nn: "\<And>st. P st \<Longrightarrow> nonneg st"
    and cont: "\<And>st c st'. P st \<Longrightarrow> looking_at st \<noteq> [] \<Longrightarrow>
                a_star_round w e st = Inr (Continue c st') \<Longrightarrow> P st'"
  shows "\<exists>r. a_star_loop w e cur st0 = Some r \<and> ended P w e r"
proof -
  let ?R = "inv_image (less_than <*lex*> less_than <*lex*> less_than) (rank w)"
  have wf: "wf ?R" by (intro wf_inv_image wf_lex_prod wf_less_than)
  have "P st \<longrightarrow> (\<forall>cur. \<exists>r. a_star_loop w e cur st = Some r \<and> ended P w e r)" for st
  proof (induction st rule: wf_induct_rule[OF wf])
    case (1 st)
    show ?case
    proof (intro impI allI)
      fix cur assume P: "P st"
      show "\<exists>r. a_star_loop w e cur st = Some r \<and> ended P w e r"
      proof (cases "looking_at st = []")
        case True
        then have "a_star_loop w e cur st = Some (Inr (cur, st))"
          by (subst a_star_loop.simps) (simp add: PriorityQueue_empty_def)
        with P True show ?thesis by (simp add: ended_def)
      next
        case False
        show ?thesis
        proof (cases "a_star_round w e st")
          case (Inl exn)
          with False have "a_star_loop w e cur st = Some (Inl exn)"
            by (subst a_star_loop.simps) (simp add: PriorityQueue_empty_def)
          with P False Inl show ?thesis by (auto simp: ended_def)
        next
          case (Inr rd)
          show ?thesis
          proof (cases rd)
            case (Break c st')
            with Inr False have "a_star_loop w e cur st = Some (Inr (Some c, st'))"
              by (subst a_star_loop.simps) (simp add: PriorityQueue_empty_def)
            with P False Inr Break show ?thesis by (auto simp: ended_def)
          next
            case (Continue c st')
            with Inr False have eq: "a_star_loop w e cur st = a_star_loop w e (Some c) st'"
              by (subst a_star_loop.simps) (simp add: PriorityQueue_empty_def)
            from Inr Continue have r: "a_star_round w e st = Inr (Continue c st')" by simp
            have "(st', st) \<in> ?R" using round_rank[OF nn[OF P] r] by simp
            moreover have "P st'" by (rule cont[OF P False r])
            ultimately show ?thesis using 1 eq by auto
          qed
        qed
      qed
    qed
  qed
  with P0 show ?thesis by blast
qed

subsection \<open>What a round preserves\<close>

text \<open>The distance of \<^verbatim>\<open>cartesian_distance\<close> never exceeds the number of moves of a walk.\<close>

lemma distance_sym: "cartesian_distance p q = cartesian_distance q p"
  by (simp add: cartesian_distance_def abs_minus_commute)

lemma distance_triangle: "cartesian_distance p r \<le> cartesian_distance p q + cartesian_distance q r"
  by (simp add: cartesian_distance_def)

lemma distance_nonneg: "0 \<le> cartesian_distance p q"
  by (simp add: cartesian_distance_def)

lemma step_distance: "step w p q \<Longrightarrow> cartesian_distance p q = 1"
  by (simp add: step_def potential_distance)

lemma walk_distance:
  "walk w ps \<Longrightarrow> cartesian_distance (last ps) (hd ps) \<le> int (length ps) - 1"
proof (induction w ps rule: walk.induct)
  case (1 w)
  then show ?case by simp
next
  case (2 w p)
  then show ?case by (simp add: cartesian_distance_def)
next
  case (3 w p q ps)
  then have ih: "cartesian_distance (last (q # ps)) q \<le> int (length (q # ps)) - 1"
    and st: "cartesian_distance q p = 1"
    using step_distance[of w p q] by (simp_all add: distance_sym)
  from distance_triangle[of "last (q # ps)" p q] ih st show ?case by simp
qed

lemma walk_snoc: "walk w (xs @ [a]) \<Longrightarrow> step w a b \<Longrightarrow> walk w (xs @ [a, b])"
proof (induction xs)
  case Nil
  then show ?case by simp
next
  case (Cons x xs)
  then show ?case by (cases xs) auto
qed

lemma walk_nth: "walk w ps \<Longrightarrow> Suc i < length ps \<Longrightarrow> step w (ps ! i) (ps ! Suc i)"
proof (induction w ps arbitrary: i rule: walk.induct)
  case (3 w p q ps)
  then show ?case by (cases i) auto
qed simp_all

text \<open>
  Along a walk from a cell with cost \<open>c0\<close> to the end, either every cell has been expanded
  with a cost that grows by at most one per move, and the end has a cost of at most \<open>c0\<close>
  plus the number of moves; or the first cell of the walk that still waits in the queue has
  an entry whose priority is at most that bound, because the distance to the end is at most
  the number of moves that remain.
\<close>

lemma frontier_invD:
  "frontier_inv w e X st \<Longrightarrow> p \<notin> X \<Longrightarrow> cost st p = Some c \<Longrightarrow>
   (\<exists>f. (f, p) \<in> set (looking_at st) \<and> f \<le> c + cartesian_distance e p)
   \<or> (\<forall>n. step w p n \<longrightarrow> (\<exists>c'. cost st n = Some c' \<and> c' \<le> c + 1))"
  unfolding frontier_inv_def by blast

lemma frontier_bound:
  "frontier_inv w e {} st \<Longrightarrow> walk w ps \<Longrightarrow> last ps = e \<Longrightarrow> cost st (hd ps) = Some c0 \<Longrightarrow>
   (\<exists>c. cost st e = Some c \<and> c \<le> c0 + int (length ps) - 1)
   \<or> (\<exists>f p. (f, p) \<in> set (looking_at st) \<and> f \<le> c0 + int (length ps) - 1)"
proof (induction w ps arbitrary: c0 rule: walk.induct)
  case (1 w)
  then show ?case by simp
next
  case (2 w p)
  then show ?case by simp
next
  case (3 w p q ps)
  from "3.prems"(2) have pq: "step w p q" and wk: "walk w (q # ps)" by simp_all
  from "3.prems"(3) have lst: "last (q # ps) = e" by simp
  from "3.prems"(4) have cp: "cost st p = Some c0" by simp
  from walk_distance[OF "3.prems"(2)] lst
  have d: "cartesian_distance e p \<le> int (length (p # q # ps)) - 1" by simp
  from frontier_invD[OF "3.prems"(1) _ cp] have
    "(\<exists>f. (f, p) \<in> set (looking_at st) \<and> f \<le> c0 + cartesian_distance e p)
     \<or> (\<forall>n. step w p n \<longrightarrow> (\<exists>c'. cost st n = Some c' \<and> c' \<le> c0 + 1))"
    by simp
  then show ?case
  proof
    assume "\<exists>f. (f, p) \<in> set (looking_at st) \<and> f \<le> c0 + cartesian_distance e p"
    then obtain f where "(f, p) \<in> set (looking_at st)" "f \<le> c0 + cartesian_distance e p" by blast
    with d have "(f, p) \<in> set (looking_at st) \<and> f \<le> c0 + int (length (p # q # ps)) - 1" by simp
    then show ?thesis by blast
  next
    assume "\<forall>n. step w p n \<longrightarrow> (\<exists>c'. cost st n = Some c' \<and> c' \<le> c0 + 1)"
    with pq obtain c1 where c1: "cost st q = Some c1" "c1 \<le> c0 + 1" by blast
    from c1(1) have "cost st (hd (q # ps)) = Some c1" by simp
    from "3.IH"[OF "3.prems"(1) wk lst this]
    have "(\<exists>c. cost st e = Some c \<and> c \<le> c1 + int (length (q # ps)) - 1)
       \<or> (\<exists>f p. (f, p) \<in> set (looking_at st) \<and> f \<le> c1 + int (length (q # ps)) - 1)" .
    then show ?thesis
    proof
      assume "\<exists>c. cost st e = Some c \<and> c \<le> c1 + int (length (q # ps)) - 1"
      then obtain c where "cost st e = Some c" "c \<le> c1 + int (length (q # ps)) - 1" by blast
      with c1(2) have "cost st e = Some c \<and> c \<le> c0 + int (length (p # q # ps)) - 1" by simp
      then show ?thesis by blast
    next
      assume "\<exists>f p. (f, p) \<in> set (looking_at st) \<and> f \<le> c1 + int (length (q # ps)) - 1"
      then obtain f r where "(f, r) \<in> set (looking_at st)" "f \<le> c1 + int (length (q # ps)) - 1"
        by blast
      with c1(2) have "(f, r) \<in> set (looking_at st) \<and> f \<le> c0 + int (length (p # q # ps)) - 1"
        by simp
      then show ?thesis by blast
    qed
  qed
qed

text \<open>Removing entries from the queue, as \<^verbatim>\<open>pop\<close> does.\<close>

lemma tree_inv_queue:
  "tree_inv w s st \<Longrightarrow> set q \<subseteq> set (looking_at st) \<Longrightarrow> tree_inv w s (st\<lparr>looking_at := q\<rparr>)"
  unfolding tree_inv_def nonneg_def by auto

lemma goal_entries_queue:
  "goal_entries e st \<Longrightarrow> set q \<subseteq> set (looking_at st) \<Longrightarrow> goal_entries e (st\<lparr>looking_at := q\<rparr>)"
  unfolding goal_entries_def by auto

lemma frontier_inv_pop:
  assumes "frontier_inv w e {} st" "set (looking_at st) = insert (f, c) (set q)"
  shows "frontier_inv w e {c} (st\<lparr>looking_at := q\<rparr>)"
  unfolding frontier_inv_def
proof (intro allI impI)
  fix p cp assume p: "p \<notin> {c}" and cp: "cost (st\<lparr>looking_at := q\<rparr>) p = Some cp"
  from cp have "cost st p = Some cp" by simp
  from frontier_invD[OF assms(1) _ this]
  have "(\<exists>f. (f, p) \<in> set (looking_at st) \<and> f \<le> cp + cartesian_distance e p)
     \<or> (\<forall>n. step w p n \<longrightarrow> (\<exists>c'. cost st n = Some c' \<and> c' \<le> cp + 1))"
    by simp
  then show "(\<exists>f. (f, p) \<in> set (looking_at (st\<lparr>looking_at := q\<rparr>)) \<and> f \<le> cp + cartesian_distance e p)
     \<or> (\<forall>n. step w p n \<longrightarrow> (\<exists>c'. cost (st\<lparr>looking_at := q\<rparr>) n = Some c' \<and> c' \<le> cp + 1))"
    using p assms(2) by auto
qed

lemma round_tree:
  assumes inv: "tree_inv w s st" and r: "a_star_round w e st = Inr (Continue c st')"
  shows "tree_inv w s st'"
  using r
proof (cases rule: round_Continue)
  case (1 q ns)
  from pop_Some[OF 1(1)] have sub: "set q \<subseteq> set (looking_at st)" by auto
  have "\<forall>n \<in> set ns. step w c n" using neighbours_step[OF 1(3)] by simp
  from visit_all_tree[OF tree_inv_queue[OF inv sub] this 1(4)] show ?thesis .
qed

lemma popped_cost:
  assumes inv: "tree_inv w s st" and p: "PriorityQueue_pop (looking_at st) = (Some c, q)"
  shows "\<exists>cc. cost st c = Some cc"
proof -
  from pop_Some[OF p] obtain f where "(f, c) \<in> set (looking_at st)" by blast
  with inv have "cost st (snd (f, c)) \<noteq> None" unfolding tree_inv_def by blast
  then show ?thesis by simp
qed

text \<open>
  A round that continues keeps the invariants: the popped cell may have lost its entry, but
  after the pass all its neighbours have a cost of at most one more than its own.
\<close>

lemma round_inv:
  assumes inv: "search_inv w s e st" and r: "a_star_round w e st = Inr (Continue c st')"
  shows "search_inv w s e st'"
  using r
proof (cases rule: round_Continue)
  case (1 q ns)
  let ?st1 = "st\<lparr>looking_at := q\<rparr>"
  from inv have t: "tree_inv w s st" and fr: "frontier_inv w e {} st" and g: "goal_entries e st"
    by (simp_all add: search_inv_def)
  from pop_Some[OF 1(1)] obtain f where f: "set (looking_at st) = insert (f, c) (set q)" by blast
  then have sub: "set q \<subseteq> set (looking_at st)" by auto
  have t': "tree_inv w s st'" by (rule round_tree[OF t r])
  have g': "goal_entries e st'" by (rule visit_all_goal[OF goal_entries_queue[OF g sub] 1(4)])
  have fr1: "frontier_inv w e {c} st'"
    by (rule visit_all_frontier[OF frontier_inv_pop[OF fr f] 1(4)])
  from popped_cost[OF t 1(1)] obtain cc where "cost ?st1 c = Some cc" by auto
  from visit_all_current[OF this 1(4)]
  have cur: "cost st' c = Some cc" "\<forall>n \<in> set ns. \<exists>c'. cost st' n = Some c' \<and> c' \<le> cc + 1"
    by simp_all
  have closed: "\<forall>n. step w c n \<longrightarrow> (\<exists>c'. cost st' n = Some c' \<and> c' \<le> cc + 1)"
    using cur(2) neighbours_step[OF 1(3)] by blast
  have "frontier_inv w e {} st'"
    unfolding frontier_inv_def
  proof (intro allI impI)
    fix p cp assume cp: "cost st' p = Some cp"
    show "(\<exists>f. (f, p) \<in> set (looking_at st') \<and> f \<le> cp + cartesian_distance e p)
       \<or> (\<forall>n. step w p n \<longrightarrow> (\<exists>c'. cost st' n = Some c' \<and> c' \<le> cp + 1))"
    proof (cases "p = c")
      case True
      with cp cur(1) closed show ?thesis by simp
    next
      case False
      then have "p \<notin> {c}" by simp
      from frontier_invD[OF fr1 this cp] show ?thesis .
    qed
  qed
  with t' g' show ?thesis by (simp add: search_inv_def)
qed

text \<open>
  When the end is popped its entry has the least priority in the queue. By
  \<open>frontier_bound\<close> either the end's cost is already within the length of any walk from the
  start, or some entry has a priority within it, and then so has the popped one, which
  bounds the end's cost.
\<close>

lemma round_break:
  assumes inv: "search_inv w s e st" and r: "a_star_round w e st = Inr (Break c st')"
  shows "c = e \<and> tree_inv w s st'
         \<and> (\<forall>ps. walk w ps \<and> hd ps = s \<and> last ps = e \<longrightarrow>
               (\<exists>ce. cost st' e = Some ce \<and> ce \<le> int (length ps) - 1))"
  using r
proof (cases rule: round_Break)
  case (1 q)
  from inv have t: "tree_inv w s st" and fr: "frontier_inv w e {} st" and g: "goal_entries e st"
    by (simp_all add: search_inv_def)
  from pop_Some[OF 1(1)] obtain f where f: "(f, c) \<in> set (looking_at st)"
    "\<forall>x \<in> set (looking_at st). f \<le> fst x" "set (looking_at st) = insert (f, c) (set q)" by blast
  then have sub: "set q \<subseteq> set (looking_at st)" by auto
  have t': "tree_inv w s st'" using tree_inv_queue[OF t sub] 1(3) by simp
  from g f(1) 1(2) obtain ce where ce: "cost st e = Some ce" "ce \<le> f"
    unfolding goal_entries_def by blast
  from t have s0: "cost st s = Some 0" by (simp add: tree_inv_def)
  have "\<exists>ce. cost st' e = Some ce \<and> ce \<le> int (length ps) - 1"
    if wk: "walk w ps" "hd ps = s" "last ps = e" for ps
  proof -
    from s0 wk(2) have "cost st (hd ps) = Some 0" by simp
    from frontier_bound[OF fr wk(1) wk(3) this]
    have "(\<exists>c. cost st e = Some c \<and> c \<le> int (length ps) - 1)
       \<or> (\<exists>f p. (f, p) \<in> set (looking_at st) \<and> f \<le> int (length ps) - 1)" by simp
    then have "ce \<le> int (length ps) - 1"
    proof
      assume "\<exists>c. cost st e = Some c \<and> c \<le> int (length ps) - 1"
      with ce show ?thesis by auto
    next
      assume "\<exists>f p. (f, p) \<in> set (looking_at st) \<and> f \<le> int (length ps) - 1"
      then obtain f' p' where "(f', p') \<in> set (looking_at st)" "f' \<le> int (length ps) - 1" by blast
      with f(2) have "f \<le> int (length ps) - 1" by fastforce
      with ce(2) show ?thesis by simp
    qed
    with ce(1) 1(3) show ?thesis by simp
  qed
  with t' 1(2) show ?thesis by blast
qed

text \<open>On a rectangular grid no round raises an exception.\<close>

lemma round_no_error:
  assumes rect: "rectangular w" and inv: "tree_inv w s st" and ne: "looking_at st \<noteq> []"
  shows "a_star_round w e st \<noteq> Inl exn"
proof
  assume "a_star_round w e st = Inl exn"
  then show False
  proof (cases rule: round_Inl)
    case empty
    with ne show ?thesis by simp
  next
    case (nbrs c q)
    with neighbours_rect[OF rect, of c] show ?thesis by simp
  next
    case (vis c q ns)
    from popped_cost[OF inv vis(1)] have "cost (st\<lparr>looking_at := q\<rparr>) c \<noteq> None" by auto
    from visit_all_returns[OF this, of e ns] vis(3) show ?thesis by auto
  qed
qed

lemma initial_inv: "search_inv w s e (initial s)"
  unfolding search_inv_def tree_inv_def frontier_inv_def goal_entries_def nonneg_def
  by (auto simp: initial_def PriorityQueue_put_def distance_nonneg cartesian_distance_def)

lemma search_inv_nonneg: "search_inv w s e st \<Longrightarrow> nonneg st"
  by (simp add: search_inv_def tree_inv_def)

lemma loop_end:
  "\<exists>r. a_star_loop w e None (initial s) = Some r \<and> ended (search_inv w s e) w e r"
  by (rule loop_rule[where P = "search_inv w s e", OF initial_inv search_inv_nonneg round_inv])

subsection \<open>Following the parents and the outcomes of the search\<close>

lemma tree_inv_start: "tree_inv w s st \<Longrightarrow> cost st s = Some 0"
  by (simp add: tree_inv_def)

lemma tree_inv_nonneg: "tree_inv w s st \<Longrightarrow> cost st p = Some c \<Longrightarrow> 0 \<le> c"
  unfolding tree_inv_def nonneg_def by blast

lemma tree_inv_parent:
  "tree_inv w s st \<Longrightarrow> cost st p = Some c \<Longrightarrow> p \<noteq> s \<Longrightarrow>
   \<exists>q cq. parent st p = Some (Some q) \<and> cost st q = Some cq \<and> cq + 1 \<le> c \<and> step w q p"
  unfolding tree_inv_def by blast

lemma tree_inv_no_parent: "tree_inv w s st \<Longrightarrow> cost st p = None \<Longrightarrow> parent st p = None"
  unfolding tree_inv_def by blast

text \<open>
  Following the parents from a cell with a cost returns: the cost falls by at least one at
  each parent and is never negative. The cells collected form a chain back to the start of
  at most as many moves as the cost.
\<close>

lemma follow_chain:
  assumes inv: "tree_inv w s st"
  shows "cost st p = Some c \<Longrightarrow>
    \<exists>chain. follow (parent st) s p acc = Some (Inr (acc @ chain))
      \<and> back_chain w (cost st) s p chain \<and> int (length chain) \<le> c"
proof (induction "nat c" arbitrary: p c acc rule: less_induct)
  case less
  show ?case
  proof (cases "p = s")
    case True
    have "follow (parent st) s p acc = Some (Inr acc)"
      using True by (subst follow.simps) simp
    moreover have "0 \<le> c" by (rule tree_inv_nonneg[OF inv less.prems])
    ultimately show ?thesis using True by (intro exI[of _ "[]"]) simp
  next
    case False
    from tree_inv_parent[OF inv less.prems False] obtain q cq where
      q: "parent st p = Some (Some q)" "cost st q = Some cq" "cq + 1 \<le> c" "step w q p" by blast
    have "0 \<le> cq" by (rule tree_inv_nonneg[OF inv q(2)])
    with q(3) have "nat cq < nat c" by simp
    from less.hyps[OF this q(2), of "acc @ [q]"] obtain chain where
      ch: "follow (parent st) s q (acc @ [q]) = Some (Inr ((acc @ [q]) @ chain))"
        "back_chain w (cost st) s q chain" "int (length chain) \<le> cq" by blast
    have "follow (parent st) s p acc = follow (parent st) s q (acc @ [q])"
      using False q(1) by (subst follow.simps) simp
    with ch q less.prems False show ?thesis by (intro exI[of _ "q # chain"]) auto
  qed
qed

lemma back_chain_walk:
  "back_chain w cst s p chain \<Longrightarrow>
   walk w (rev (p # chain)) \<and> hd (rev (p # chain)) = s \<and> last (rev (p # chain)) = p"
proof (induction chain arbitrary: p)
  case Nil
  then show ?case by simp
next
  case (Cons q qs)
  from Cons.prems have st: "step w q p" and bc: "back_chain w cst s q qs" by simp_all
  from Cons.IH[OF bc] have wk: "walk w (rev qs @ [q])" and h: "hd (rev qs @ [q]) = s" by simp_all
  from walk_snoc[OF wk st] have "walk w (rev (p # q # qs))" by simp
  moreover have "hd ((rev qs @ [q]) @ [p]) = hd (rev qs @ [q])" by (rule hd_append2) simp
  then have "hd (rev (p # q # qs)) = s" using h by simp
  ultimately show ?case by simp
qed

lemma back_chain_lower:
  "back_chain w cst s p chain \<Longrightarrow> cst p = Some c \<Longrightarrow> q \<in> set chain \<Longrightarrow>
   \<exists>cq. cst q = Some cq \<and> cq < c"
proof (induction chain arbitrary: p c)
  case Nil
  then show ?case by simp
next
  case (Cons r rs)
  from Cons.prems(1,2) obtain cr where cr: "cst r = Some cr" "cr + 1 \<le> c"
    and bc: "back_chain w cst s r rs" by auto
  show ?case
  proof (cases "q = r")
    case True
    with cr show ?thesis by simp
  next
    case False
    with Cons.prems(3) have "q \<in> set rs" by simp
    from Cons.IH[OF bc cr(1) this] cr(2) show ?thesis by auto
  qed
qed

lemma back_chain_distinct: "back_chain w cst s p chain \<Longrightarrow> distinct (p # chain)"
proof (induction chain arbitrary: p)
  case Nil
  then show ?case by simp
next
  case (Cons q qs)
  from Cons.prems obtain c where c: "cst p = Some c" and bc: "back_chain w cst s q qs" by auto
  have "p \<notin> set (q # qs)"
  proof
    assume "p \<in> set (q # qs)"
    from back_chain_lower[OF Cons.prems c this] c show False by simp
  qed
  with Cons.IH[OF bc] show ?case by simp
qed

text \<open>
  The state in which the loop ends: the parents form a tree, and the end's cost is at most
  the number of moves of any walk from the start to the end.
\<close>

lemma loop_result:
  assumes "a_star_loop w e None (initial s) = Some (Inr (c, st))"
  shows "tree_inv w s st \<and> (c = Some e \<or> looking_at st = [])
    \<and> (\<forall>ps. walk w ps \<and> hd ps = s \<and> last ps = e \<longrightarrow>
          (\<exists>ce. cost st e = Some ce \<and> ce \<le> int (length ps) - 1))"
proof -
  from loop_end[of w e s] assms have "ended (search_inv w s e) w e (Inr (c, st))" by auto
  then have "(search_inv w s e st \<and> looking_at st = [])
     \<or> (\<exists>st0 c'. search_inv w s e st0 \<and> looking_at st0 \<noteq> []
            \<and> a_star_round w e st0 = Inr (Break c' st) \<and> c = Some c')"
    by (simp add: ended_def)
  then show ?thesis
  proof
    assume a: "search_inv w s e st \<and> looking_at st = []"
    then have t: "tree_inv w s st" and fr: "frontier_inv w e {} st"
      by (simp_all add: search_inv_def)
    have "\<exists>ce. cost st e = Some ce \<and> ce \<le> int (length ps) - 1"
      if wk: "walk w ps" "hd ps = s" "last ps = e" for ps
    proof -
      from tree_inv_start[OF t] wk(2) have "cost st (hd ps) = Some 0" by simp
      from frontier_bound[OF fr wk(1) wk(3) this] a show ?thesis by simp
    qed
    with t a show ?thesis by blast
  next
    assume "\<exists>st0 c'. search_inv w s e st0 \<and> looking_at st0 \<noteq> []
            \<and> a_star_round w e st0 = Inr (Break c' st) \<and> c = Some c'"
    then obtain st0 c' where b: "search_inv w s e st0" "a_star_round w e st0 = Inr (Break c' st)"
      "c = Some c'" by blast
    from round_break[OF b(1,2)] b(3) show ?thesis by blast
  qed
qed

lemma loop_no_error:
  assumes "rectangular w" "a_star_loop w e None (initial s) = Some (Inl exn)"
  shows False
proof -
  from loop_end[of w e s] assms(2) have "ended (search_inv w s e) w e (Inl exn)" by auto
  then obtain st where "search_inv w s e st" "looking_at st \<noteq> []" "a_star_round w e st = Inl exn"
    by (auto simp: ended_def)
  with round_no_error[OF assms(1), of s st e exn] show False by (simp add: search_inv_def)
qed

text \<open>
  The three outcomes of the search: an exception of a round (only on a grid that is not
  rectangular), the exit of \<^verbatim>\<open>err\<close> (only when no walk leads from the start to the end), or the
  reversed chain of the end's ancestors.
\<close>

lemma a_star_outcome:
  obtains (error) exn where "a_star s e w = Some (Inl exn)" "\<not> rectangular w"
  | (no_path) c st where "a_star s e w = Some (Inl (SystemExit ''No path could be found.'' 1))"
      "a_star_loop w e None (initial s) = Some (Inr (c, st))"
      "c = Some e \<or> looking_at st = []"
      "\<forall>ps. \<not> (walk w ps \<and> hd ps = s \<and> last ps = e)"
  | (path) c st chain ce where "a_star s e w = Some (Inr (rev (e # chain)))"
      "a_star_loop w e None (initial s) = Some (Inr (c, st))"
      "c = Some e \<or> looking_at st = []"
      "back_chain w (cost st) s e chain" "cost st e = Some ce" "int (length chain) \<le> ce"
      "\<forall>ps. walk w ps \<and> hd ps = s \<and> last ps = e \<longrightarrow> ce \<le> int (length ps) - 1"
proof -
  from loop_end[of w e s] obtain r where r: "a_star_loop w e None (initial s) = Some r" by blast
  show ?thesis
  proof (cases r)
    case (Inl exn)
    with r have "a_star s e w = Some (Inl exn)" by (simp add: a_star_def)
    moreover have "\<not> rectangular w" using loop_no_error[of w e s exn] r Inl by auto
    ultimately show ?thesis by (rule error)
  next
    case (Inr cs)
    obtain c st where cs: "cs = (c, st)" by (cases cs)
    with r Inr have l: "a_star_loop w e None (initial s) = Some (Inr (c, st))" by simp
    from loop_result[OF l] have t: "tree_inv w s st" and fin: "c = Some e \<or> looking_at st = []"
      and bound: "\<forall>ps. walk w ps \<and> hd ps = s \<and> last ps = e \<longrightarrow>
          (\<exists>ce. cost st e = Some ce \<and> ce \<le> int (length ps) - 1)" by simp_all
    show ?thesis
    proof (cases "cost st e")
      case None
      with tree_inv_start[OF t] have ne: "e \<noteq> s" by auto
      from tree_inv_no_parent[OF t None] ne
      have "follow (parent st) s e [e] = Some (Inl (SystemExit ''No path could be found.'' 1))"
        by (subst follow.simps) (simp add: err_def)
      with l have a: "a_star s e w = Some (Inl (SystemExit ''No path could be found.'' 1))"
        by (simp add: a_star_def)
      from bound None have "\<forall>ps. \<not> (walk w ps \<and> hd ps = s \<and> last ps = e)" by auto
      from no_path[OF a l fin this] show ?thesis .
    next
      case (Some ce)
      from follow_chain[OF t Some, of "[e]"] obtain chain where
        ch: "follow (parent st) s e [e] = Some (Inr ([e] @ chain))"
          "back_chain w (cost st) s e chain" "int (length chain) \<le> ce" by blast
      from ch(1) l have a: "a_star s e w = Some (Inr (rev (e # chain)))" by (simp add: a_star_def)
      from bound Some have "\<forall>ps. walk w ps \<and> hd ps = s \<and> last ps = e \<longrightarrow> ce \<le> int (length ps) - 1"
        by auto
      from path[OF a l fin ch(2) Some ch(3) this] show ?thesis .
    qed
  qed
qed

subsection \<open>Routes\<close>

text \<open>On a rectangular grid the moves of the code are the moves of a route.\<close>

lemma walk_route: "rectangular w \<Longrightarrow> walk w ps = route w ps"
  by (induction w ps rule: walk.induct) (simp_all add: step_rect)

lemma route_passable: "route w ps \<Longrightarrow> passable w (hd ps) \<Longrightarrow> p \<in> set ps \<Longrightarrow> passable w p"
  by (induction w ps rule: route.induct) auto

lemma connects_walk: "rectangular w \<Longrightarrow> connects w s e ps \<Longrightarrow> walk w ps \<and> hd ps = s \<and> last ps = e"
  by (simp add: connects_def walk_route)

lemma chain_connects:
  assumes "rectangular w" "back_chain w cst s e chain"
  shows "connects w s e (rev (e # chain))"
  using back_chain_walk[OF assms(2)] walk_route[OF assms(1), of "rev (e # chain)"]
  by (simp add: connects_def)

subsection \<open>Two sample runs\<close>

lemma a_star_walled: "a_star (0, 0) (2, 2) walled = Some (Inr [(0, 0), (1, 0), (1, 1), (1, 2), (2, 2)])"
  by code_simp

lemma a_star_blocked:
  "a_star (0, 0) (2, 0) blocked = Some (Inl (SystemExit ''No path could be found.'' 1))"
  by code_simp

subsection \<open>Costs from round to round\<close>

lemma round_cost_mono:
  assumes "a_star_round w e st = Inr rd" "rd = Break c st' \<or> rd = Continue c st'"
  shows "cost_mono st st'"
proof (cases rd)
  case (Break c0 st0)
  with assms have "a_star_round w e st = Inr (Break c st')" by auto
  then show ?thesis by (cases rule: round_Break) (simp add: cost_mono_def)
next
  case (Continue c0 st0)
  with assms have "a_star_round w e st = Inr (Continue c st')" by auto
  then show ?thesis
  proof (cases rule: round_Continue)
    case (1 q ns)
    from visit_all_cost_mono[OF 1(4)] show ?thesis by (simp add: cost_mono_def)
  qed
qed

lemma loop_cost_mono:
  assumes "a_star_loop w e cur st = Some r"
  shows "\<forall>c st'. r = Inr (c, st') \<longrightarrow> cost_mono st st'"
proof (rule a_star_loop.raw_induct[where P = "\<lambda>w e cur st r. \<forall>c st'. r = Inr (c, st') \<longrightarrow> cost_mono st st'",
      OF _ assms], goal_cases)
  case (1 loop w e cur st r)
  show ?case
  proof (cases "PriorityQueue_empty (looking_at st)")
    case True
    with 1(2) show ?thesis by (auto simp: cost_mono_refl)
  next
    case False
    show ?thesis
    proof (cases "a_star_round w e st")
      case (Inl exn)
      with False 1(2) show ?thesis by auto
    next
      case (Inr rd)
      show ?thesis
      proof (cases rd)
        case (Break c0 st0)
        with Inr False 1(2) have "r = Inr (Some c0, st0)" by simp
        with round_cost_mono[OF Inr, of c0 st0] Break show ?thesis by simp
      next
        case (Continue c0 st0)
        with Inr False 1(2) have "loop w e (Some c0) st0 = Some r" by simp
        from 1(1)[OF this] have "\<forall>c st'. r = Inr (c, st') \<longrightarrow> cost_mono st0 st'" .
        with round_cost_mono[OF Inr, of c0 st0] Continue show ?thesis
          by (auto intro: cost_mono_trans)
      qed
    qed
  qed
qed

subsection \<open>The printed directions\<close>

text \<open>
  The loop only appends to what it has printed. For two cells at distance one, the letter
  chosen by the main program moves the first cell onto the second.
\<close>

lemma directions_loop_out:
  "directions_loop ps prev d out = out @ directions_loop ps prev d []"
proof (induction ps arbitrary: prev d out)
  case Nil
  then show ?case by simp
next
  case (Cons q rest)
  show ?case
  proof (cases prev)
    case None
    then show ?thesis using Cons.IH[of "Some q" d out] by simp
  next
    case (Some pp)
    define piece where "piece = (if d then '' '' else '''') @
      (if fst q > fst pp then ''R'' else if fst q < fst pp then ''L''
       else if snd q > snd pp then ''D'' else ''U'')"
    have a: "directions_loop (q # rest) prev d out = directions_loop rest (Some q) True (out @ piece)"
      using Some by (simp add: piece_def Let_def)
    have b: "directions_loop (q # rest) prev d [] = directions_loop rest (Some q) True piece"
      using Some by (simp add: piece_def Let_def)
    from Cons.IH[of "Some q" True "out @ piece"] Cons.IH[of "Some q" True piece] a b
    show ?thesis by simp
  qed
qed

lemma move_letter:
  assumes "cartesian_distance p q = 1"
  shows "move (if fst q > fst p then CHR ''R'' else if fst q < fst p then CHR ''L''
               else if snd q > snd p then CHR ''D'' else CHR ''U'') p = q"
  using assms by (cases p; cases q) (auto simp: cartesian_distance_def)

lemma replay_directions:
  "walk w (p # ps) \<Longrightarrow> replay p (directions_loop ps (Some p) d [] @ [CHR 0x0A]) = p # ps"
proof (induction ps arbitrary: p d)
  case Nil
  then show ?case by simp
next
  case (Cons q rest)
  from Cons.prems have st: "step w p q" and wk: "walk w (q # rest)" by simp_all
  define c where "c = (if fst q > fst p then CHR ''R'' else if fst q < fst p then CHR ''L''
               else if snd q > snd p then CHR ''D'' else CHR ''U'')"
  have mv: "move c p = q" unfolding c_def by (rule move_letter[OF step_distance[OF st]])
  have sep: "c \<noteq> CHR '' ''" "c \<noteq> CHR 0x0A" by (simp_all add: c_def)
  have "directions_loop (q # rest) (Some p) d []
        = directions_loop rest (Some q) True ((if d then '' '' else '''') @ [c])"
    by (simp add: c_def Let_def)
  also have "\<dots> = ((if d then '' '' else '''') @ [c]) @ directions_loop rest (Some q) True []"
    by (rule directions_loop_out)
  finally have "replay p (directions_loop (q # rest) (Some p) d [] @ [CHR 0x0A])
        = p # replay q (directions_loop rest (Some q) True [] @ [CHR 0x0A])"
    using sep mv by simp
  with Cons.IH[OF wk] show ?case by simp
qed


section \<open>The properties of the search\<close>

text \<open>
  C1: on a rectangular grid, whenever a route connects the start and the end, the search
  returns a path, and the number of moves of the path is the length of a shortest route from
  the start to the end. In-bounds passable start and end cells joined by a passable route are
  a case of this.
\<close>

theorem a_star_shortest:
  "rectangular w \<Longrightarrow> connects w s e ps \<Longrightarrow>
   \<exists>path. a_star s e w = Some (Inr path) \<and> shortest_length w s e (length path - 1)"
proof -
  assume rect: "rectangular w" and con: "connects w s e ps"
  show ?thesis
  proof (cases rule: a_star_outcome[of s e w])
    case (error exn)
    with rect show ?thesis by simp
  next
    case (no_path c st)
    with connects_walk[OF rect con] show ?thesis by blast
  next
    case (path c st chain ce)
    let ?path = "rev (e # chain)"
    have 1: "connects w s e ?path" by (rule chain_connects[OF rect path(4)])
    have 2: "Suc (length ?path - 1) \<le> length qs" if q: "connects w s e qs" for qs
    proof -
      from connects_walk[OF rect q] path(7) have "ce \<le> int (length qs) - 1" by blast
      with path(6) show ?thesis by simp
    qed
    have "shortest_length w s e (length ?path - 1)"
      unfolding shortest_length_def using 1 2 by (intro conjI exI[of _ ?path] allI impI) simp_all
    with path(1) show ?thesis by blast
  qed
qed

theorem a_star_shortest_witness:
  "rectangular walled \<and> connects walled (0, 0) (2, 2) [(0, 0), (1, 0), (1, 1), (1, 2), (2, 2)]
   \<and> a_star (0, 0) (2, 2) walled = Some (Inr [(0, 0), (1, 0), (1, 1), (1, 2), (2, 2)])
   \<and> shortest_length walled (0, 0) (2, 2) 4"
proof -
  have c: "connects walled (0, 0) (2, 2) [(0, 0), (1, 0), (1, 1), (1, 2), (2, 2)]"
    by (simp add: connects_def cartesian_distance_def passable_def point_inside_def free_def
        walled_def)
  from a_star_shortest [OF rectangular_walled c] a_star_walled rectangular_walled c
  show ?thesis by (simp add: eval_nat_numeral)
qed

text \<open>
  C2: on a rectangular grid, whenever a route connects the start and the end, the list the
  search returns begins with the start, ends with the end, any two consecutive cells of it
  are at Manhattan distance exactly one, and no cell occurs twice in it.
\<close>

theorem a_star_path_shape:
  "rectangular w \<Longrightarrow> connects w s e ps \<Longrightarrow>
   \<exists>path. a_star s e w = Some (Inr path) \<and> path \<noteq> [] \<and> hd path = s \<and> last path = e
     \<and> (\<forall>i. Suc i < length path \<longrightarrow> cartesian_distance (path ! i) (path ! Suc i) = 1)
     \<and> distinct path"
proof -
  assume rect: "rectangular w" and con: "connects w s e ps"
  show ?thesis
  proof (cases rule: a_star_outcome[of s e w])
    case (error exn)
    with rect show ?thesis by simp
  next
    case (no_path c st)
    with connects_walk[OF rect con] show ?thesis by blast
  next
    case (path c st chain ce)
    let ?path = "rev (e # chain)"
    from back_chain_walk[OF path(4)] have wk: "walk w ?path" and h: "hd ?path = s"
      and l: "last ?path = e" by simp_all
    have adj: "\<forall>i. Suc i < length ?path \<longrightarrow> cartesian_distance (?path ! i) (?path ! Suc i) = 1"
      using walk_nth[OF wk] step_distance by blast
    have d: "distinct ?path" using back_chain_distinct[OF path(4)] by (simp only: distinct_rev)
    have "?path \<noteq> []" by simp
    with path(1) h l adj d show ?thesis by blast
  qed
qed

theorem a_star_path_shape_witness:
  "rectangular walled \<and> connects walled (0, 0) (2, 2) [(0, 0), (1, 0), (1, 1), (1, 2), (2, 2)]
   \<and> (\<exists>path. a_star (0, 0) (2, 2) walled = Some (Inr path) \<and> path \<noteq> [] \<and> hd path = (0, 0)
        \<and> last path = (2, 2)
        \<and> (\<forall>i. Suc i < length path \<longrightarrow> cartesian_distance (path ! i) (path ! Suc i) = 1)
        \<and> distinct path)"
proof -
  have c: "connects walled (0, 0) (2, 2) [(0, 0), (1, 0), (1, 1), (1, 2), (2, 2)]"
    by (simp add: connects_def cartesian_distance_def passable_def point_inside_def free_def
        walled_def)
  from a_star_path_shape [OF rectangular_walled c] rectangular_walled c
  show ?thesis by simp
qed

text \<open>
  On a rectangular grid the search ends in the exit of \<^verbatim>\<open>err("No path could be found.")\<close>
  exactly when no route connects the start and the end, and no other exception leaves it.
\<close>

lemma search_exit_iff:
  assumes rect: "rectangular w"
  shows "(a_star s e w = Some (Inl (SystemExit ''No path could be found.'' 1)) \<longleftrightarrow> \<not> connected w s e)
    \<and> (\<forall>exn. a_star s e w = Some (Inl exn) \<longrightarrow> exn = SystemExit ''No path could be found.'' 1)"
proof (cases rule: a_star_outcome[of s e w])
  case (error exn)
  with rect show ?thesis by simp
next
  case (no_path c st)
  have "\<not> connected w s e"
    unfolding connected_def using no_path(4) connects_walk[OF rect] by blast
  with no_path(1) show ?thesis by simp
next
  case (path c st chain ce)
  from chain_connects[OF rect path(4)] have "connected w s e" unfolding connected_def by blast
  with path(1) show ?thesis by simp
qed

text \<open>
  C3, as stated: whenever no route connects the start and the end, the search reports the
  no-path outcome to its caller rather than throwing an exception. On the grid \<open>0 1 0\<close> no
  route connects \<open>(0, 0)\<close> and \<open>(2, 0)\<close>, and the call returns nothing to its caller: the
  KeyError of \<^verbatim>\<open>parent[the_point]\<close> is caught, \<^verbatim>\<open>err\<close> prints the message and \<^verbatim>\<open>sys.exit(1)\<close>
  raises SystemExit inside \<^verbatim>\<open>a_star\<close>.
\<close>

theorem a_star_no_path_counterexample:
  "\<not> connected blocked (0, 0) (2, 0) \<and> \<not> returned (a_star (0, 0) (2, 0) blocked)
   \<and> a_star (0, 0) (2, 0) blocked = Some (Inl (SystemExit ''No path could be found.'' 1))"
  using search_exit_iff [OF rectangular_blocked, of "(0, 0)" "(2, 0)"] a_star_blocked
  by (simp add: returned_def)

text \<open>
  C3, amended: on a rectangular grid, whenever no route connects the start and the end, the
  search prints \<open>No path could be found.\<close> and ends by \<^verbatim>\<open>sys.exit(1)\<close>, that is, by raising
  SystemExit with status 1 inside \<^verbatim>\<open>a_star\<close>; it returns no list, whole or partial. The search
  ends this way only when no route exists, and this is the only exception that leaves the
  search.
\<close>

theorem a_star_no_path:
  "rectangular w \<Longrightarrow>
   (a_star s e w = Some (Inl (SystemExit ''No path could be found.'' 1)) \<longleftrightarrow> \<not> connected w s e)
   \<and> (\<not> connected w s e \<longrightarrow> \<not> returned (a_star s e w))
   \<and> (\<forall>exn. a_star s e w = Some (Inl exn) \<longrightarrow> exn = SystemExit ''No path could be found.'' 1)"
  using search_exit_iff [of w s e] by (auto simp: returned_def)

theorem a_star_no_path_witness:
  "rectangular blocked \<and> a_star (0, 0) (2, 0) blocked = Some (Inl (SystemExit ''No path could be found.'' 1))
   \<and> \<not> connected blocked (0, 0) (2, 0)"
  using a_star_no_path [OF rectangular_blocked, of "(0, 0)" "(2, 0)"] a_star_blocked
    rectangular_blocked
  by simp

text \<open>
  C4: for every grid and every cell \<open>c\<close>, the search from \<open>c\<close> to \<open>c\<close> returns the
  one-element list \<open>[c]\<close>. The first round pops the start, which is the end, and leaves the
  loop; no parent is followed.
\<close>

theorem a_star_same_cell: "a_star c c w = Some (Inr [c])"
  by (simp add: a_star_def a_star_loop.simps initial_def PriorityQueue_empty_def
      PriorityQueue_put_def a_star_round_def PriorityQueue_pop_def follow.simps)

text \<open>
  C7: in a run of the search the cost map only gains keys, and the cost stored for a cell
  only changes to a strictly lower one. This holds across one pass of the body of the
  \<^verbatim>\<open>for\<close> loop, across one round of the \<^verbatim>\<open>while\<close> loop, and from any state of the loop to the
  state in which the loop ends.
\<close>

theorem cost_map_monotone:
  "(visit e cur st n = Inr st' \<longrightarrow> cost_mono st st')
   \<and> (a_star_round w e st = Inr (Continue c st') \<longrightarrow> cost_mono st st')
   \<and> (a_star_loop w e cur' st = Some (Inr (c', st')) \<longrightarrow> cost_mono st st')"
  using visit_cost_mono[of e cur st n st'] round_cost_mono[of w e st "Continue c st'" c st']
    loop_cost_mono[of w e cur' st "Inr (c', st')"]
  by blast

theorem cost_map_monotone_witness:
  "(\<exists>st'. visit (2, 2) (0, 0) (initial (0, 0)) (1, 0) = Inr st' \<and> cost st' (1, 0) = Some 1
      \<and> cost_mono (initial (0, 0)) st')
   \<and> (\<exists>c st'. a_star_round walled (2, 2) (initial (0, 0)) = Inr (Continue c st')
         \<and> cost_mono (initial (0, 0)) st')
   \<and> (\<exists>c st'. a_star_loop walled (2, 2) None (initial (0, 0)) = Some (Inr (c, st'))
         \<and> cost_mono (initial (0, 0)) st')"
proof -
  let ?st1 = "\<lparr>looking_at = [(0, (0, 0)), (4, (1, 0))],
               parent = [(0, 0) \<mapsto> None, (1, 0) \<mapsto> Some (0, 0)],
               cost = [(0, 0) \<mapsto> 0, (1, 0) \<mapsto> 1]\<rparr>"
  let ?st2 = "\<lparr>looking_at = [(4, (1, 0))],
               parent = [(0, 0) \<mapsto> None, (1, 0) \<mapsto> Some (0, 0)],
               cost = [(0, 0) \<mapsto> 0, (1, 0) \<mapsto> 1]\<rparr>"
  have v: "visit (2, 2) (0, 0) (initial (0, 0)) (1, 0) = Inr ?st1"
    by (simp add: visit_def initial_def PriorityQueue_put_def cartesian_distance_def)
  have r: "a_star_round walled (2, 2) (initial (0, 0)) = Inr (Continue (0, 0) ?st2)"
    by (simp add: a_star_round_def initial_def PriorityQueue_put_def PriorityQueue_pop_def
        PriorityQueue_empty_def neighbours_def potential_def point_inside_def
        World_is_empty_def getitem_def list_index_def walled_def visit_def
        cartesian_distance_def)
  from rectangular_walled a_star_walled
  obtain c st' where l: "a_star_loop walled (2, 2) None (initial (0, 0)) = Some (Inr (c, st'))"
    by (cases rule: a_star_outcome[of "(0, 0)" "(2, 2)" walled]) auto
  from cost_map_monotone [where e = "(2, 2)" and cur = "(0, 0)" and st = "initial (0, 0)"
      and n = "(1, 0)" and st' = ?st1] v
  have 1: "cost_mono (initial (0, 0)) ?st1" by blast
  from cost_map_monotone [where e = "(2, 2)" and w = walled and st = "initial (0, 0)"
      and c = "(0, 0)" and st' = ?st2] r
  have 2: "cost_mono (initial (0, 0)) ?st2" by blast
  from cost_map_monotone [where e = "(2, 2)" and w = walled and st = "initial (0, 0)"
      and cur' = None and c' = c and st' = st'] l
  have 3: "cost_mono (initial (0, 0)) st'" by blast
  from v 1 r 2 l 3 show ?thesis by auto
qed

text \<open>
  C8: the search terminates for every grid, start and end: \<^const>\<open>a_star\<close> has a value. On
  a rectangular grid the loop is left without an error, either because the end was popped
  from the queue or because the queue is empty.
\<close>

theorem a_star_terminates:
  "(\<exists>r. a_star s e w = Some r)
   \<and> (rectangular w \<longrightarrow>
        (\<exists>c st. a_star_loop w e None (initial s) = Some (Inr (c, st))
           \<and> (c = Some e \<or> looking_at st = [])))"
  by (cases rule: a_star_outcome[of s e w]) auto

theorem a_star_terminates_witness:
  "rectangular walled \<and> (\<exists>r. a_star (0, 0) (2, 2) walled = Some r)
   \<and> (\<exists>c st. a_star_loop walled (2, 2) None (initial (0, 0)) = Some (Inr (c, st))
         \<and> (c = Some (2, 2) \<or> looking_at st = []))"
  using a_star_terminates [of "(0, 0)" "(2, 2)" walled] rectangular_walled by simp

text \<open>
  C9: for every path the search returns, replaying the letters of the printed directions
  from the first cell of the path gives back the cells of the path, in order.
\<close>

theorem directions_replay:
  "a_star s e w = Some (Inr path) \<Longrightarrow> replay (hd path) (directions path) = path"
proof -
  assume a: "a_star s e w = Some (Inr path)"
  show ?thesis
  proof (cases rule: a_star_outcome[of s e w])
    case (error exn)
    with a show ?thesis by simp
  next
    case (no_path c st)
    with a show ?thesis by simp
  next
    case (path c st chain ce)
    with a have p: "path = rev (e # chain)" by simp
    from back_chain_walk[OF path(4)] p have wk: "walk w path" by simp
    then obtain p0 rest where pr: "path = p0 # rest" by (cases path) auto
    with wk replay_directions[of w p0 rest False] show ?thesis
      by (simp add: directions_def)
  qed
qed

theorem directions_replay_witness:
  "a_star (0, 0) (2, 2) walled = Some (Inr [(0, 0), (1, 0), (1, 1), (1, 2), (2, 2)])
   \<and> directions [(0, 0), (1, 0), (1, 1), (1, 2), (2, 2)] = ''R D D R'' @ [CHR 0x0A]
   \<and> replay (0, 0) (''R D D R'' @ [CHR 0x0A]) = [(0, 0), (1, 0), (1, 1), (1, 2), (2, 2)]"
proof -
  have d: "directions [(0, 0), (1, 0), (1, 1), (1, 2), (2, 2)] = ''R D D R'' @ [CHR 0x0A]"
    by (simp add: directions_def)
  from directions_replay [OF a_star_walled] d a_star_walled show ?thesis by simp
qed


end
